theory Spec2Isabelle
  imports Complex_Main "HOL-Library.Monad_Syntax" "HOL-Library.Product_Lexorder" "HOL-Library.Multiset"
begin

section \<open>Python values\<close>

text \<open>
  Strings are lists of characters. The model covers ASCII text: \<open>str.upper\<close> maps
  the letters \<open>a\<close>..\<open>z\<close> to \<open>A\<close>..\<open>Z\<close> and leaves every other character alone,
  so it keeps the length of the string.
\<close>

definition upper_char :: "char \<Rightarrow> char" where
  "upper_char c =
     (let n = (of_char c :: nat) in if 97 \<le> n \<and> n \<le> 122 then char_of (n - 32) else c)"

definition upper :: "string \<Rightarrow> string" where
  "upper w = map upper_char w"

text \<open>\<open>s.replace(a, b)\<close> for one-character strings \<open>a\<close> and \<open>b\<close>: every occurrence.\<close>

definition replace_char :: "char \<Rightarrow> char \<Rightarrow> string \<Rightarrow> string" where
  "replace_char a b s = map (\<lambda>x. if x = a then b else x) s"

text \<open>
  Python list indexing: a negative index counts from the end, and an index that is
  still out of range raises IndexError, which is \<open>None\<close> here. An uncaught exception
  leaves the method, so every operation that indexes returns an option.
\<close>

definition py_index :: "'a list \<Rightarrow> int \<Rightarrow> 'a option" where
  "py_index xs i =
     (let n = int (length xs); j = (if i < 0 then i + n else i)
      in if 0 \<le> j \<and> j < n then Some (xs ! nat j) else None)"

definition py_update :: "'a list \<Rightarrow> int \<Rightarrow> 'a \<Rightarrow> 'a list option" where
  "py_update xs i v =
     (let n = int (length xs); j = (if i < 0 then i + n else i)
      in if 0 \<le> j \<and> j < n then Some (xs[nat j := v]) else None)"

text \<open>\<open>range(n)\<close> for a Python int \<open>n\<close>.\<close>

definition py_range :: "int \<Rightarrow> int list" where
  "py_range n = map int [0..<nat n]"

section \<open>The engine\<close>

type_synonym grid = "char list list"

text \<open>A recorded placement: \<open>(word, row, col, direction)\<close>.\<close>

type_synonym placement = "string \<times> int \<times> int \<times> string"

text \<open>
  The attributes of \<open>ScrabbleCrossword\<close> that no method assigns after construction
  are held in \<open>engine\<close>; \<open>all_words\<close> is the set that \<open>Trie.contains\<close> reads (the trie
  nodes are written by \<open>insert\<close> and never read). The attributes the search mutates
  are the \<open>state\<close>, together with the number of clock readings and of random draws
  made so far. The wall clock, the random generator and standard output are the
  \<open>world\<close>: the k-th call of \<open>time.time()\<close> returns \<open>clock w k\<close>, the k-th call
  of \<open>random.random()\<close> returns \<open>rand w k\<close>, and \<open>print\<close> of a message raises
  unless \<open>stdout_accepts w\<close> holds of it.
\<close>

text \<open>
  The messages the engine prints. \<open>Timeout\<close> and \<open>Could_not_place\<close> hold a symbol
  outside ASCII, which a standard output that cannot encode it refuses with
  UnicodeEncodeError; \<open>Trying\<close> and \<open>Could_not_place\<close> hold the word.
\<close>

datatype message =
  Starting nat
  | Completed rat
  | Timeout rat
  | Trying int nat string
  | Found nat
  | Could_not_place string

record engine =
  grid_size :: int
  timeout :: rat
  all_words :: "string set"
  words :: "string list"

record state =
  grid :: grid
  placed_words :: "placement list"
  start_time :: "rat option"
  clock_reads :: nat
  rand_draws :: nat

record world =
  clock :: "nat \<Rightarrow> rat"
  rand :: "nat \<Rightarrow> rat"
  stdout_accepts :: "message \<Rightarrow> bool"

definition py_print :: "world \<Rightarrow> message \<Rightarrow> unit option" where
  "py_print w m = (if stdout_accepts w m then Some () else None)"

definition trie_contains :: "engine \<Rightarrow> string \<Rightarrow> bool" where
  "trie_contains e word = (upper word \<in> all_words e)"

definition cell :: "grid \<Rightarrow> int \<Rightarrow> int \<Rightarrow> char option" where
  "cell g r c = do { row \<leftarrow> py_index g r; py_index row c }"

definition set_cell :: "grid \<Rightarrow> int \<Rightarrow> int \<Rightarrow> char \<Rightarrow> grid option" where
  "set_cell g r c ch =
     do { row \<leftarrow> py_index g r; row' \<leftarrow> py_update row c ch; py_update g r row' }"

definition empty_grid :: "int \<Rightarrow> grid" where
  "empty_grid n = map (\<lambda>_. map (\<lambda>_. CHR '' '') (py_range n)) (py_range n)"

definition clear_grid :: "engine \<Rightarrow> state \<Rightarrow> state" where
  "clear_grid e s = s\<lparr>grid := empty_grid (grid_size e), placed_words := []\<rparr>"

subsection \<open>build_perpendicular_word\<close>

text \<open>
  The two branches of \<open>build_perpendicular_word\<close> run the same pair of loops, over
  the column \<open>\<lambda>r. grid[r][col]\<close> or over the row \<open>\<lambda>c. grid[row][c]\<close>; \<open>line\<close>
  is that accessor. \<open>scan_back\<close> is the loop that inserts at the front while the
  index is at least 0, \<open>scan_forward\<close> the loop that appends while the index is below
  \<open>grid_size\<close>.
\<close>

function scan_back :: "(int \<Rightarrow> char option) \<Rightarrow> int \<Rightarrow> string \<Rightarrow> string option" where
  "scan_back line r letters =
     (if r \<ge> 0 then
        (case line r of
           None \<Rightarrow> None
         | Some ch \<Rightarrow>
             if ch \<noteq> CHR '' '' then scan_back line (r - 1) (ch # letters)
             else Some letters)
      else Some letters)"
  by pat_completeness auto
termination
  by (relation "measure (\<lambda>(line, r, letters). nat (r + 1))") auto

declare scan_back.simps [simp del]

function scan_forward ::
  "int \<Rightarrow> (int \<Rightarrow> char option) \<Rightarrow> int \<Rightarrow> string \<Rightarrow> string option" where
  "scan_forward n line r letters =
     (if r < n then
        (case line r of
           None \<Rightarrow> None
         | Some ch \<Rightarrow>
             if ch \<noteq> CHR '' '' then scan_forward n line (r + 1) (letters @ [ch])
             else Some letters)
      else Some letters)"
  by pat_completeness auto
termination
  by (relation "measure (\<lambda>(n, line, r, letters). nat (n - r))") auto

declare scan_forward.simps [simp del]

definition build_perpendicular_word ::
  "engine \<Rightarrow> state \<Rightarrow> int \<Rightarrow> int \<Rightarrow> string \<Rightarrow> string option" where
  "build_perpendicular_word e s row col main_direction =
     (if main_direction = ''across'' then
        do { letters \<leftarrow> scan_back (\<lambda>r. cell (grid s) r col) (row - 1) [];
             scan_forward (grid_size e) (\<lambda>r. cell (grid s) r col) (row + 1)
               (letters @ ''?'') }
      else
        do { letters \<leftarrow> scan_back (\<lambda>c. cell (grid s) row c) (col - 1) [];
             scan_forward (grid_size e) (\<lambda>c. cell (grid s) row c) (col + 1)
               (letters @ ''?'') })"

subsection \<open>can_place_word_scrabble\<close>

text \<open>\<open>grid[r][c] != ' '\<close>, raising where the read raises.\<close>

definition occupied :: "grid \<Rightarrow> int \<Rightarrow> int \<Rightarrow> bool option" where
  "occupied g r c = map_option (\<lambda>ch. ch \<noteq> CHR '' '') (cell g r c)"

text \<open>
  The loop over \<open>enumerate(word)\<close>: \<open>Some False\<close> is its \<open>return False\<close>,
  \<open>Some True\<close> is the loop running to its end.
\<close>

fun check_letters ::
  "engine \<Rightarrow> state \<Rightarrow> int \<Rightarrow> int \<Rightarrow> string \<Rightarrow> (nat \<times> char) list \<Rightarrow> bool option" where
  "check_letters e s row col direction [] = Some True"
| "check_letters e s row col direction ((i, char) # rest) =
     (let curr_row = (if direction = ''across'' then row else row + int i);
          curr_col = (if direction = ''across'' then col + int i else col)
      in case cell (grid s) curr_row curr_col of
           None \<Rightarrow> None
         | Some current_char \<Rightarrow>
             if current_char \<noteq> CHR '' '' \<and> current_char \<noteq> char then Some False
             else if current_char = CHR '' '' then
               (case build_perpendicular_word e s curr_row curr_col direction of
                  None \<Rightarrow> None
                | Some perp_word \<Rightarrow>
                    let perp_word = replace_char CHR ''?'' char perp_word
                    in if length perp_word > 1 \<and> \<not> trie_contains e perp_word
                       then Some False
                       else check_letters e s row col direction rest)
             else check_letters e s row col direction rest)"

definition check_boundaries ::
  "engine \<Rightarrow> state \<Rightarrow> string \<Rightarrow> int \<Rightarrow> int \<Rightarrow> string \<Rightarrow> bool option" where
  "check_boundaries e s word row col direction =
     (let len = int (length word) in
      if direction = ''across'' then
        do { left \<leftarrow> (if col > 0 then occupied (grid s) row (col - 1) else Some False);
             if left then Some False
             else do {
               right \<leftarrow> (if col + len < grid_size e
                         then occupied (grid s) row (col + len) else Some False);
               Some (\<not> right) } }
      else
        do { top \<leftarrow> (if row > 0 then occupied (grid s) (row - 1) col else Some False);
             if top then Some False
             else do {
               bottom \<leftarrow> (if row + len < grid_size e
                          then occupied (grid s) (row + len) col else Some False);
               Some (\<not> bottom) } })"

definition can_place_word_scrabble ::
  "engine \<Rightarrow> state \<Rightarrow> string \<Rightarrow> int \<Rightarrow> int \<Rightarrow> string \<Rightarrow> bool option" where
  "can_place_word_scrabble e s word0 row col direction =
     (let word = upper word0 in
      if direction = ''across'' \<and> col + int (length word) > grid_size e then Some False
      else if direction \<noteq> ''across'' \<and> row + int (length word) > grid_size e
        then Some False
      else do {
        ok \<leftarrow> check_letters e s row col direction (List.enumerate 0 word);
        if \<not> ok then Some False
        else check_boundaries e s word row col direction })"

subsection \<open>place_word\<close>

fun write_letters ::
  "grid \<Rightarrow> int \<Rightarrow> int \<Rightarrow> string \<Rightarrow> (nat \<times> char) list \<Rightarrow> grid option" where
  "write_letters g row col direction [] = Some g"
| "write_letters g row col direction ((i, char) # rest) =
     (case (if direction = ''across'' then set_cell g row (col + int i) char
            else set_cell g (row + int i) col char) of
        None \<Rightarrow> None
      | Some g' \<Rightarrow> write_letters g' row col direction rest)"

definition place_word :: "state \<Rightarrow> string \<Rightarrow> int \<Rightarrow> int \<Rightarrow> string \<Rightarrow> state option" where
  "place_word s word0 row col direction =
     (let word = upper word0 in
      case write_letters (grid s) row col direction (List.enumerate 0 word) of
        None \<Rightarrow> None
      | Some g' \<Rightarrow>
          Some (s\<lparr>grid := g',
                 placed_words := placed_words s @ [(word, row, col, direction)]\<rparr>))"

subsection \<open>has_connection_to_existing\<close>

definition orthogonal_directions :: "(int \<times> int) list" where
  "orthogonal_directions = [(-1, 0), (1, 0), (0, -1), (0, 1)]"

fun any_neighbour ::
  "engine \<Rightarrow> state \<Rightarrow> int \<Rightarrow> int \<Rightarrow> (int \<times> int) list \<Rightarrow> bool option" where
  "any_neighbour e s curr_row curr_col [] = Some False"
| "any_neighbour e s curr_row curr_col ((dr, dc) # rest) =
     (let nr = curr_row + dr; nc = curr_col + dc in
      if 0 \<le> nr \<and> nr < grid_size e \<and> 0 \<le> nc \<and> nc < grid_size e then
        (case occupied (grid s) nr nc of
           None \<Rightarrow> None
         | Some True \<Rightarrow> Some True
         | Some False \<Rightarrow> any_neighbour e s curr_row curr_col rest)
      else any_neighbour e s curr_row curr_col rest)"

fun connect_letters ::
  "engine \<Rightarrow> state \<Rightarrow> string \<Rightarrow> int \<Rightarrow> int \<Rightarrow> string \<Rightarrow> nat list \<Rightarrow> bool option" where
  "connect_letters e s word row col direction [] = Some False"
| "connect_letters e s word row col direction (i # rest) =
     (let curr_row = (if direction = ''across'' then row else row + int i);
          curr_col = (if direction = ''across'' then col + int i else col)
      in case cell (grid s) curr_row curr_col of
           None \<Rightarrow> None
         | Some current_char \<Rightarrow>
             if current_char = word ! i then Some True
             else (case any_neighbour e s curr_row curr_col orthogonal_directions of
                     None \<Rightarrow> None
                   | Some True \<Rightarrow> Some True
                   | Some False \<Rightarrow> connect_letters e s word row col direction rest))"

definition has_connection_to_existing ::
  "engine \<Rightarrow> state \<Rightarrow> string \<Rightarrow> int \<Rightarrow> int \<Rightarrow> string \<Rightarrow> bool option" where
  "has_connection_to_existing e s word0 row col direction =
     (if length (placed_words s) = 0 then Some True
      else let word = upper word0
           in connect_letters e s word row col direction [0..<length word])"

subsection \<open>The search\<close>

text \<open>
  The scoring loop of \<open>_backtrack_solve\<close>: it compares the grid with the letters of
  \<open>self.words[word_index]\<close> as stored, not upper-cased.
\<close>

fun count_intersections ::
  "grid \<Rightarrow> string \<Rightarrow> int \<Rightarrow> int \<Rightarrow> string \<Rightarrow> nat list \<Rightarrow> int \<Rightarrow> int option" where
  "count_intersections g word row col direction [] intersections = Some intersections"
| "count_intersections g word row col direction (i # rest) intersections =
     (case (if direction = ''across'' then cell g row (col + int i)
            else cell g (row + int i) col) of
        None \<Rightarrow> None
      | Some ch \<Rightarrow>
          count_intersections g word row col direction rest
            (if ch = word ! i then intersections + 1 else intersections))"

text \<open>The three nested loops visit the start cells row by row, across before down.\<close>

definition all_positions :: "engine \<Rightarrow> (int \<times> int \<times> string) list" where
  "all_positions e =
     concat (map (\<lambda>row. concat (map (\<lambda>col. map (\<lambda>direction. (row, col, direction))
                                                  [''across'', ''down''])
                                     (py_range (grid_size e))))
                 (py_range (grid_size e)))"

fun collect_placements ::
  "engine \<Rightarrow> state \<Rightarrow> string \<Rightarrow> (int \<times> int \<times> string) list
     \<Rightarrow> (int \<times> int \<times> string \<times> int) list option" where
  "collect_placements e s word [] = Some []"
| "collect_placements e s word ((row, col, direction) # rest) =
     do { ok \<leftarrow> can_place_word_scrabble e s word row col direction;
          connected \<leftarrow> (if ok then has_connection_to_existing e s word row col direction
                        else Some False);
          if connected then
            do { intersections \<leftarrow>
                   count_intersections (grid s) word row col direction [0..<length word] 0;
                 more \<leftarrow> collect_placements e s word rest;
                 Some ((row, col, direction, intersections) # more) }
          else collect_placements e s word rest }"

text \<open>
  \<open>list.sort(key=...)\<close> computes the key of every element once, in list order, and
  sorts stably by the keys; tuples compare lexicographically. The i-th element draws
  \<open>rand w (k + i)\<close>.
\<close>

definition sort_placements ::
  "world \<Rightarrow> nat \<Rightarrow> (int \<times> int \<times> string \<times> int) list \<Rightarrow> (int \<times> int \<times> string \<times> int) list" where
  "sort_placements w k ps =
     map snd (sort_key fst
       (map (\<lambda>(i, x). ((- (snd (snd (snd x))), rand w (k + i)), x)) (List.enumerate 0 ps)))"

text \<open>
  The loop over the sorted placements; \<open>solve_next\<close> is the recursive call
  \<open>self._backtrack_solve(word_index + 1)\<close>.
\<close>

fun try_placements ::
  "(state \<Rightarrow> (bool \<times> state) option) \<Rightarrow> string \<Rightarrow> (int \<times> int \<times> string \<times> int) list
     \<Rightarrow> state \<Rightarrow> (bool \<times> state) option" where
  "try_placements solve_next word [] s = Some (False, s)"
| "try_placements solve_next word ((row, col, direction, _) # rest) s =
     (let old_grid = grid s; old_placed_words = placed_words s in
      case place_word s word row col direction of
        None \<Rightarrow> None
      | Some s1 \<Rightarrow>
          (case solve_next s1 of
             None \<Rightarrow> None
           | Some (True, s2) \<Rightarrow> Some (True, s2)
           | Some (False, s2) \<Rightarrow>
               try_placements solve_next word rest
                 (s2\<lparr>grid := old_grid, placed_words := old_placed_words\<rparr>)))"

lemma try_placements_cong [fundef_cong]:
  "(\<And>t. f t = g t) \<Longrightarrow> word = word' \<Longrightarrow> ps = ps' \<Longrightarrow> s = s'
     \<Longrightarrow> try_placements f word ps s = try_placements g word' ps' s'"
  by (induction f word ps s arbitrary: s' ps' rule: try_placements.induct)
     (auto split: option.splits bool.splits)

text \<open>
  \<open>_backtrack_solve\<close>. Reading the clock before \<open>generate_puzzle\<close> has set
  \<open>start_time\<close> subtracts \<open>None\<close> from a float, a TypeError. Every \<open>print\<close> of
  the source is a \<open>py_print\<close> here, at its place among the other statements.
\<close>

function backtrack_solve ::
  "engine \<Rightarrow> world \<Rightarrow> int \<Rightarrow> state \<Rightarrow> (bool \<times> state) option" where
  "backtrack_solve e w word_index s =
     (let now = clock w (clock_reads s);
          s = s\<lparr>clock_reads := clock_reads s + 1\<rparr>
      in case start_time s of
           None \<Rightarrow> None
         | Some started \<Rightarrow>
             if now - started > timeout e then
               (case py_print w (Timeout (timeout e)) of
                  None \<Rightarrow> None
                | Some _ \<Rightarrow> Some (False, s))
             else if word_index \<ge> int (length (words e)) then Some (True, s)
             else
               (case py_index (words e) word_index of
                  None \<Rightarrow> None
                | Some word \<Rightarrow>
                    (case py_print w (Trying (word_index + 1) (length (words e)) word) of
                       None \<Rightarrow> None
                     | Some _ \<Rightarrow>
                    (case collect_placements e s word (all_positions e) of
                       None \<Rightarrow> None
                     | Some valid_placements \<Rightarrow>
                         let sorted_placements =
                               sort_placements w (rand_draws s) valid_placements;
                             s = s\<lparr>rand_draws := rand_draws s + length valid_placements\<rparr>
                         in case py_print w (Found (length valid_placements)) of
                              None \<Rightarrow> None
                            | Some _ \<Rightarrow>
                         (case try_placements (backtrack_solve e w (word_index + 1)) word
                                 sorted_placements s of
                            None \<Rightarrow> None
                          | Some (True, s') \<Rightarrow> Some (True, s')
                          | Some (False, s') \<Rightarrow>
                              (case py_print w (Could_not_place word) of
                                 None \<Rightarrow> None
                               | Some _ \<Rightarrow> Some (False, s')))))))"
  by pat_completeness auto
termination
  by (relation "measure (\<lambda>(e, w, word_index, s). nat (int (length (words e)) - word_index))")
     auto

declare backtrack_solve.simps [simp del]

definition generate_puzzle :: "engine \<Rightarrow> world \<Rightarrow> state \<Rightarrow> (bool \<times> state) option" where
  "generate_puzzle e w s =
     (let s = s\<lparr>start_time := Some (clock w (clock_reads s)),
                 clock_reads := clock_reads s + 1\<rparr>
      in case py_print w (Starting (length (words e))) of
           None \<Rightarrow> None
         | Some _ \<Rightarrow>
             (case backtrack_solve e w 0 s of
                None \<Rightarrow> None
              | Some (result, s) \<Rightarrow>
                  (case start_time s of
                     None \<Rightarrow> None
                   | Some started \<Rightarrow>
                       let elapsed = clock w (clock_reads s) - started;
                           s = s\<lparr>clock_reads := clock_reads s + 1\<rparr>
                       in case py_print w (Completed elapsed) of
                            None \<Rightarrow> None
                          | Some _ \<Rightarrow> Some (result, s))))"

subsection \<open>find_best_placement\<close>

definition distance_to_center :: "engine \<Rightarrow> string \<Rightarrow> int \<Rightarrow> int \<Rightarrow> string \<Rightarrow> int" where
  "distance_to_center e word row col direction =
     (let center_row = grid_size e div 2; center_col = grid_size e div 2;
          word_center_row = (if direction = ''across'' then row
                             else row + int (length word) div 2);
          word_center_col = (if direction = ''across'' then col + int (length word) div 2
                             else col)
      in \<bar>word_center_row - center_row\<bar> + \<bar>word_center_col - center_col\<bar>)"

fun collect_connected ::
  "engine \<Rightarrow> state \<Rightarrow> string \<Rightarrow> (int \<times> int \<times> string) list
     \<Rightarrow> (int \<times> int \<times> string \<times> int \<times> int) list option" where
  "collect_connected e s word [] = Some []"
| "collect_connected e s word ((row, col, direction) # rest) =
     do { ok \<leftarrow> can_place_word_scrabble e s word row col direction;
          connected \<leftarrow> (if ok then has_connection_to_existing e s word row col direction
                        else Some False);
          if connected then
            do { intersections \<leftarrow>
                   count_intersections (grid s) word row col direction [0..<length word] 0;
                 more \<leftarrow> collect_connected e s word rest;
                 Some ((row, col, direction, intersections,
                        - distance_to_center e word row col direction) # more) }
          else collect_connected e s word rest }"

definition sort_connected ::
  "world \<Rightarrow> nat \<Rightarrow> (int \<times> int \<times> string \<times> int \<times> int) list
     \<Rightarrow> (int \<times> int \<times> string \<times> int \<times> int) list" where
  "sort_connected w k ps =
     map snd (sort_key fst
       (map (\<lambda>(i, x). ((- (fst (snd (snd (snd x)))), snd (snd (snd (snd x))), rand w (k + i)), x))
            (List.enumerate 0 ps)))"

text \<open>
  The outer option is the exception, the inner one the \<open>Optional\<close> the method
  returns.
\<close>

definition find_best_placement ::
  "engine \<Rightarrow> world \<Rightarrow> state \<Rightarrow> string \<Rightarrow> ((int \<times> int \<times> string) option \<times> state) option" where
  "find_best_placement e w s word0 =
     (let word = upper word0 in
      case collect_connected e s word (all_positions e) of
        None \<Rightarrow> None
      | Some connected_placements \<Rightarrow>
          if connected_placements = [] then Some (None, s)
          else
            (case sort_connected w (rand_draws s) connected_placements of
               [] \<Rightarrow> None
             | (row, col, direction, _) # _ \<Rightarrow>
                 Some (Some (row, col, direction),
                       s\<lparr>rand_draws := rand_draws s + length connected_placements\<rparr>)))"

subsection \<open>The constructor\<close>

text \<open>
  \<open>itertools.groupby(self.words, key=len)\<close>: the maximal runs of consecutive words of
  equal length.
\<close>

function groupby_len :: "string list \<Rightarrow> string list list" where
  "groupby_len [] = []"
| "groupby_len (x # xs) =
     (x # takeWhile (\<lambda>y. length y = length x) xs)
       # groupby_len (dropWhile (\<lambda>y. length y = length x) xs)"
  by pat_completeness auto
termination
  by (relation "measure length") (auto simp: length_dropWhile_le less_Suc_eq_le)

text \<open>
  \<open>random.shuffle\<close> swaps \<open>x[i]\<close> with \<open>x[j]\<close>, \<open>j\<close> drawn below \<open>i + 1\<close>, for
  \<open>i\<close> from \<open>len(x) - 1\<close> down to 1. The draws come from \<open>pick\<close>, a stream of
  its own. \<open>shuffle_loop\<close> returns the list and the number of draws made so far.
\<close>

fun shuffle_loop :: "(nat \<Rightarrow> nat) \<Rightarrow> nat \<Rightarrow> nat \<Rightarrow> 'a list \<Rightarrow> 'a list \<times> nat" where
  "shuffle_loop pick k 0 xs = (xs, k)"
| "shuffle_loop pick k (Suc i) xs =
     (let j = pick k mod (Suc i + 1)
      in shuffle_loop pick (Suc k) i (xs[Suc i := xs ! j, j := xs ! Suc i]))"

definition shuffle :: "(nat \<Rightarrow> nat) \<Rightarrow> nat \<Rightarrow> 'a list \<Rightarrow> 'a list \<times> nat" where
  "shuffle pick k xs = shuffle_loop pick k (length xs - 1) xs"

fun shuffle_groups :: "(nat \<Rightarrow> nat) \<Rightarrow> nat \<Rightarrow> string list list \<Rightarrow> string list" where
  "shuffle_groups pick k [] = []"
| "shuffle_groups pick k (group_list # rest) =
     (let (shuffled, k') = shuffle pick k group_list
      in shuffled @ shuffle_groups pick k' rest)"

definition sorted_by_len_desc :: "string list \<Rightarrow> string list" where
  "sorted_by_len_desc word_list = sort_key (\<lambda>w. - int (length w)) word_list"

definition new_engine :: "(nat \<Rightarrow> nat) \<Rightarrow> string list \<Rightarrow> int \<Rightarrow> engine \<times> state" where
  "new_engine pick word_list n =
     (\<lparr>grid_size = n, timeout = 30, all_words = set (map upper word_list),
       words = shuffle_groups pick 0 (groupby_len (sorted_by_len_desc word_list))\<rparr>,
      \<lparr>grid = empty_grid n, placed_words = [], start_time = None,
       clock_reads = 0, rand_draws = 0\<rparr>)"

section \<open>Definitions for the specification\<close>

text \<open>The class invariant of the grid: \<open>grid_size\<close> rows of \<open>grid_size\<close> cells.\<close>

definition wf_grid :: "engine \<Rightarrow> state \<Rightarrow> bool" where
  "wf_grid e s \<longleftrightarrow>
     int (length (grid s)) = grid_size e \<and>
     (\<forall>row \<in> set (grid s). int (length row) = grid_size e)"

text \<open>
  The line through \<open>(row, col)\<close> orthogonal to the placement axis, and the position of
  the cell on it: the column for a word placed across, the row otherwise.
\<close>

definition orthogonal_line :: "state \<Rightarrow> int \<Rightarrow> int \<Rightarrow> string \<Rightarrow> int \<Rightarrow> char option" where
  "orthogonal_line s row col main_direction =
     (if main_direction = ''across'' then (\<lambda>r. cell (grid s) r col)
      else (\<lambda>c. cell (grid s) row c))"

definition orthogonal_pos :: "int \<Rightarrow> int \<Rightarrow> string \<Rightarrow> int" where
  "orthogonal_pos row col main_direction =
     (if main_direction = ''across'' then row else col)"

text \<open>
  \<open>[a..b]\<close> is the maximal contiguous run through position \<open>p\<close> of a line of \<open>n\<close>
  cells: every cell of it other than \<open>p\<close> holds a letter, and the cell before \<open>a\<close>
  and the cell after \<open>b\<close> are empty or off the board.
\<close>

definition maximal_run :: "(int \<Rightarrow> char option) \<Rightarrow> int \<Rightarrow> int \<Rightarrow> int \<Rightarrow> int \<Rightarrow> bool" where
  "maximal_run line n p a b \<longleftrightarrow>
     0 \<le> a \<and> a \<le> p \<and> p \<le> b \<and> b < n \<and>
     (\<forall>k \<in> set [a..b]. k \<noteq> p \<longrightarrow> (\<exists>ch. line k = Some ch \<and> ch \<noteq> CHR '' '')) \<and>
     (a = 0 \<or> line (a - 1) = Some CHR '' '') \<and>
     (b = n - 1 \<or> line (b + 1) = Some CHR '' '')"

text \<open>The letters of the run in board order, the placeholder standing at \<open>p\<close>.\<close>

definition run_text :: "(int \<Rightarrow> char option) \<Rightarrow> int \<Rightarrow> int \<Rightarrow> int \<Rightarrow> string" where
  "run_text line p a b =
     map (\<lambda>k. the (line k)) [a..p - 1] @ ''?'' @ map (\<lambda>k. the (line k)) [p + 1..b]"

text \<open>Neither neighbour of \<open>p\<close> on the line holds a letter.\<close>

definition no_neighbour :: "(int \<Rightarrow> char option) \<Rightarrow> int \<Rightarrow> int \<Rightarrow> bool" where
  "no_neighbour line n p \<longleftrightarrow>
     (p = 0 \<or> line (p - 1) = Some CHR '' '') \<and> (p = n - 1 \<or> line (p + 1) = Some CHR '' '')"

text \<open>A board used by the examples: three rows, \<open>AB.\<close>, \<open>C..\<close>, \<open>D.E\<close>.\<close>

definition example_engine :: engine where
  "example_engine =
     \<lparr>grid_size = 3, timeout = 30,
      all_words = {''ACD'', ''AB'', ''CAT'', ''BA'', ''TE'', ''E''}, words = [''CAT'']\<rparr>"

definition example_state :: state where
  "example_state =
     \<lparr>grid = [''AB '', ''C  '', ''D E''],
      placed_words = [(''ACD'', 0, 0, ''down''), (''AB'', 0, 0, ''across''),
                      (''E'', 2, 2, ''across'')],
      start_time = None, clock_reads = 0, rand_draws = 0\<rparr>"

subsection \<open>The four conditions of the validator\<close>

text \<open>The cell that letter \<open>i\<close> of a word placed at \<open>(row, col)\<close> covers.\<close>

definition covered_cell :: "int \<Rightarrow> int \<Rightarrow> string \<Rightarrow> nat \<Rightarrow> int \<times> int" where
  "covered_cell row col direction i =
     (if direction = ''across'' then (row, col + int i) else (row + int i, col))"

definition on_board :: "engine \<Rightarrow> int \<Rightarrow> int \<Rightarrow> bool" where
  "on_board e r c \<longleftrightarrow> 0 \<le> r \<and> r < grid_size e \<and> 0 \<le> c \<and> c < grid_size e"

text \<open>(1) The span of the word along its axis lies inside \<open>[0, N)\<close>.\<close>

definition span_fits :: "engine \<Rightarrow> string \<Rightarrow> int \<Rightarrow> int \<Rightarrow> string \<Rightarrow> bool" where
  "span_fits e word row col direction \<longleftrightarrow>
     (let start = (if direction = ''across'' then col else row)
      in 0 \<le> start \<and> start + int (length word) \<le> grid_size e)"

text \<open>(2) Every covered cell is empty or holds the letter of the word there.\<close>

definition cells_compatible :: "state \<Rightarrow> string \<Rightarrow> int \<Rightarrow> int \<Rightarrow> string \<Rightarrow> bool" where
  "cells_compatible s word row col direction \<longleftrightarrow>
     (\<forall>i \<in> set [0..<length word].
        case covered_cell row col direction i of
          (r, c) \<Rightarrow> cell (grid s) r c = Some CHR '' '' \<or> cell (grid s) r c = Some (word ! i))"

text \<open>
  The perpendicular word through a cell: the letters of the maximal run \<open>[a..b]\<close> on
  the orthogonal line in board order, the candidate letter standing at the cell, where
  the scan has its one placeholder.
\<close>

definition crossing_word :: "(int \<Rightarrow> char option) \<Rightarrow> int \<Rightarrow> int \<Rightarrow> int \<Rightarrow> char \<Rightarrow> string" where
  "crossing_word line p a b letter =
     map (\<lambda>k. the (line k)) [a..p - 1] @ [letter] @ map (\<lambda>k. the (line k)) [p + 1..b]"

text \<open>
  (3) At every covered cell that is empty, the perpendicular word has length 1 or is in
  the dictionary.
\<close>

definition perpendicular_valid ::
  "engine \<Rightarrow> state \<Rightarrow> string \<Rightarrow> int \<Rightarrow> int \<Rightarrow> string \<Rightarrow> bool" where
  "perpendicular_valid e s word row col direction \<longleftrightarrow>
     (\<forall>i \<in> set [0..<length word].
        case covered_cell row col direction i of
          (r, c) \<Rightarrow>
            cell (grid s) r c = Some CHR '' '' \<longrightarrow>
              (\<exists>a b. maximal_run (orthogonal_line s r c direction) (grid_size e)
                       (orthogonal_pos r c direction) a b \<and>
                     (length (crossing_word (orthogonal_line s r c direction)
                                (orthogonal_pos r c direction) a b (word ! i)) = 1 \<or>
                      trie_contains e
                        (crossing_word (orthogonal_line s r c direction)
                           (orthogonal_pos r c direction) a b (word ! i)))))"

text \<open>No cell of the grid holds the placeholder character.\<close>

definition placeholder_free :: "grid \<Rightarrow> bool" where
  "placeholder_free g \<longleftrightarrow> (\<forall>line \<in> set g. CHR ''?'' \<notin> set line)"

text \<open>
  The string the validator looks up at a cell: \<open>str.replace\<close> puts the letter for every
  question mark of the scanned string, the placeholder and any the board holds.
\<close>

definition checked_word ::
  "engine \<Rightarrow> state \<Rightarrow> int \<Rightarrow> int \<Rightarrow> string \<Rightarrow> char \<Rightarrow> string option" where
  "checked_word e s r c direction letter =
     map_option (replace_char CHR ''?'' letter) (build_perpendicular_word e s r c direction)"

text \<open>What one round of the loop over the letters decides.\<close>

definition letter_ok :: "engine \<Rightarrow> state \<Rightarrow> int \<Rightarrow> int \<Rightarrow> string \<Rightarrow> nat \<Rightarrow> char \<Rightarrow> bool" where
  "letter_ok e s row col direction i ch \<longleftrightarrow>
     (case covered_cell row col direction i of
        (r, c) \<Rightarrow>
          (cell (grid s) r c = Some CHR '' '' \<or> cell (grid s) r c = Some ch) \<and>
          (cell (grid s) r c = Some CHR '' '' \<longrightarrow>
             (case checked_word e s r c direction ch of
                None \<Rightarrow> False
              | Some perp_word \<Rightarrow> length perp_word = 1 \<or> trie_contains e perp_word)))"

definition empty_or_off_board :: "engine \<Rightarrow> state \<Rightarrow> int \<Rightarrow> int \<Rightarrow> bool" where
  "empty_or_off_board e s r c \<longleftrightarrow> \<not> on_board e r c \<or> cell (grid s) r c = Some CHR '' ''"

text \<open>
  (4) The cell before the start of the word and the cell after its end, along the
  placement axis, are empty or off the board.
\<close>

definition ends_isolated :: "engine \<Rightarrow> state \<Rightarrow> string \<Rightarrow> int \<Rightarrow> int \<Rightarrow> string \<Rightarrow> bool" where
  "ends_isolated e s word row col direction \<longleftrightarrow>
     (if direction = ''across''
      then empty_or_off_board e s row (col - 1) \<and>
           empty_or_off_board e s row (col + int (length word))
      else empty_or_off_board e s (row - 1) col \<and>
           empty_or_off_board e s (row + int (length word)) col)"

definition can_place_spec :: "engine \<Rightarrow> state \<Rightarrow> string \<Rightarrow> int \<Rightarrow> int \<Rightarrow> string \<Rightarrow> bool" where
  "can_place_spec e s word row col direction \<longleftrightarrow>
     span_fits e word row col direction \<and>
     cells_compatible s word row col direction \<and>
     perpendicular_valid e s word row col direction \<and>
     ends_isolated e s word row col direction"

subsection \<open>The connectivity rule\<close>

text \<open>One of the four orthogonal neighbours of \<open>(r, c)\<close> is on the board and holds a letter.\<close>

definition has_occupied_neighbour :: "engine \<Rightarrow> state \<Rightarrow> int \<Rightarrow> int \<Rightarrow> bool" where
  "has_occupied_neighbour e s r c \<longleftrightarrow>
     (\<exists>(dr, dc) \<in> set [(-1, 0), (1, 0), (0, -1), (0, 1)].
        on_board e (r + dr) (c + dc) \<and>
        (\<exists>ch. cell (grid s) (r + dr) (c + dc) = Some ch \<and> ch \<noteq> CHR '' ''))"

text \<open>
  No word is placed yet, or some letter position of the candidate (a) lies on a cell
  that holds a letter, the letter of the candidate there, or (b) has an occupied
  orthogonal neighbour. An empty cell holds no letter, so it is no intersection even
  where the candidate has a space.
\<close>

definition connection_spec :: "engine \<Rightarrow> state \<Rightarrow> string \<Rightarrow> int \<Rightarrow> int \<Rightarrow> string \<Rightarrow> bool" where
  "connection_spec e s word row col direction \<longleftrightarrow>
     length (placed_words s) = 0 \<or>
     (\<exists>i \<in> set [0..<length word].
        case covered_cell row col direction i of
          (r, c) \<Rightarrow>
            (cell (grid s) r c = Some (word ! i) \<and> cell (grid s) r c \<noteq> Some CHR '' '') \<or>
            has_occupied_neighbour e s r c)"

text \<open>Every cell the placement covers is on the board.\<close>

definition placement_on_board :: "engine \<Rightarrow> string \<Rightarrow> int \<Rightarrow> int \<Rightarrow> string \<Rightarrow> bool" where
  "placement_on_board e word row col direction \<longleftrightarrow>
     (\<forall>i \<in> set [0..<length word].
        case covered_cell row col direction i of (r, c) \<Rightarrow> on_board e r c)"

definition fresh_state :: "int \<Rightarrow> state" where
  "fresh_state n =
     \<lparr>grid = empty_grid n, placed_words = [], start_time = None,
      clock_reads = 0, rand_draws = 0\<rparr>"

text \<open>
  An engine built from the words \<open>AA\<close>, \<open>?\<close> and \<open>A\<close>, with \<open>?\<close> placed in the top
  left corner of its 2 by 2 board.
\<close>

definition question_engine :: engine where
  "question_engine =
     \<lparr>grid_size = 2, timeout = 30, all_words = {''AA'', ''?'', ''A''},
      words = [''AA'', ''?'', ''A'']\<rparr>"

definition question_state :: state where
  "question_state =
     \<lparr>grid = [''? '', ''  ''], placed_words = [(''?'', 0, 0, ''across'')],
      start_time = None, clock_reads = 0, rand_draws = 0\<rparr>"

text \<open>A board with the single word \<open>X\<close> in its bottom left corner.\<close>

definition corner_state :: state where
  "corner_state =
     \<lparr>grid = [''   '', ''   '', ''X  ''], placed_words = [(''X'', 2, 0, ''across'')],
      start_time = None, clock_reads = 0, rand_draws = 0\<rparr>"

subsection \<open>Replaying placements\<close>

text \<open>\<open>place_word\<close> applied to each recorded placement, in order.\<close>

fun replay :: "state \<Rightarrow> placement list \<Rightarrow> state option" where
  "replay s [] = Some s"
| "replay s ((word, row, col, direction) # rest) =
     (case place_word s word row col direction of
        None \<Rightarrow> None
      | Some s' \<Rightarrow> replay s' rest)"

text \<open>The tuple that \<open>place_word\<close> appends for a placement: the word upper-cased.\<close>

definition recorded :: "placement \<Rightarrow> placement" where
  "recorded p = (case p of (word, row, col, direction) \<Rightarrow> (upper word, row, col, direction))"

text \<open>Replaying the recorded placements onto an empty board gives the grid of the state.\<close>

definition replay_consistent :: "int \<Rightarrow> state \<Rightarrow> bool" where
  "replay_consistent n s \<longleftrightarrow>
     map_option grid (replay (fresh_state n) (placed_words s)) = Some (grid s)"

text \<open>
  A 2 by 2 engine whose two words cannot both be placed, and a world whose clock stands
  still and whose standard output takes every message.
\<close>

definition tiny_engine :: engine where
  "tiny_engine =
     \<lparr>grid_size = 2, timeout = 30, all_words = {''AB'', ''CD''}, words = [''AB'', ''CD'']\<rparr>"

definition still_world :: world where
  "still_world = \<lparr>clock = (\<lambda>k. 0), rand = (\<lambda>k. 0), stdout_accepts = (\<lambda>m. True)\<rparr>"

subsection \<open>Upper case\<close>

text \<open>
  A state is upper case when every recorded word is its own upper-casing and no
  non-empty cell holds a character that upper-casing would change.
\<close>

definition uppercase_grid :: "grid \<Rightarrow> bool" where
  "uppercase_grid g \<longleftrightarrow>
     (\<forall>row \<in> set g. \<forall>ch \<in> set row. ch \<noteq> CHR '' '' \<longrightarrow> upper_char ch = ch)"

definition uppercase_state :: "state \<Rightarrow> bool" where
  "uppercase_state s \<longleftrightarrow>
     (\<forall>(word, row, col, direction) \<in> set (placed_words s). upper word = word) \<and>
     uppercase_grid (grid s)"

text \<open>Engines and worlds used by the examples.\<close>

definition lower_engine :: engine where
  "lower_engine = fst (new_engine (\<lambda>k. 0) [''ab'', ''Ba'', ''cab''] 3)"

definition zero_timeout_engine :: engine where
  "zero_timeout_engine =
     \<lparr>grid_size = 1, timeout = 0, all_words = {''A''}, words = [''A'']\<rparr>"

text \<open>
  A world whose clock advances and whose standard output is ASCII only: it refuses the
  two messages that hold a symbol.
\<close>

definition ascii_world :: world where
  "ascii_world =
     \<lparr>clock = (\<lambda>k. of_nat k), rand = (\<lambda>k. 0),
      stdout_accepts = (\<lambda>m. case m of Timeout _ \<Rightarrow> False
                                     | Could_not_place _ \<Rightarrow> False | _ \<Rightarrow> True)\<rparr>"

definition ticking_world :: world where
  "ticking_world =
     \<lparr>clock = (\<lambda>k. of_nat k), rand = (\<lambda>k. 0), stdout_accepts = (\<lambda>m. True)\<rparr>"

text \<open>A candidate the search may try: its start is on the board and its span fits.\<close>

definition fitting :: "engine \<Rightarrow> string \<Rightarrow> int \<times> int \<times> string \<times> int \<Rightarrow> bool" where
  "fitting e word p \<longleftrightarrow>
     (case p of (row, col, direction, n) \<Rightarrow>
        on_board e row col \<and> span_fits e (upper word) row col direction)"

section \<open>Properties\<close>

subsection \<open>Grid access\<close>

lemma cell_in_range:
  assumes "wf_grid e s" "0 \<le> r" "r < grid_size e" "0 \<le> c" "c < grid_size e"
  shows "cell (grid s) r c = Some (grid s ! nat r ! nat c)"
  using assms by (auto simp: wf_grid_def cell_def py_index_def Let_def)

subsection \<open>The scanning loops\<close>

lemma scan_back_run:
  assumes "-1 \<le> r" and "\<forall>k. 0 \<le> k \<and> k \<le> r \<longrightarrow> line k \<noteq> None"
  shows "\<exists>a. 0 \<le> a \<and> a \<le> r + 1 \<and>
           (\<forall>k. a \<le> k \<and> k \<le> r \<longrightarrow> (\<exists>ch. line k = Some ch \<and> ch \<noteq> CHR '' '')) \<and>
           (a = 0 \<or> line (a - 1) = Some CHR '' '') \<and>
           scan_back line r acc = Some (map (\<lambda>k. the (line k)) [a..r] @ acc)"
  using assms
proof (induction line r acc rule: scan_back.induct)
  case (1 line r letters)
  show ?case
  proof (cases "r \<ge> 0")
    case False
    with "1.prems" have "r = -1" by simp
    then show ?thesis by (intro exI[of _ 0], subst scan_back.simps) auto
  next
    case True
    with "1.prems" obtain ch where ch: "line r = Some ch" by auto
    show ?thesis
    proof (cases "ch = CHR '' ''")
      case True
      with ch \<open>r \<ge> 0\<close> show ?thesis
        by (intro exI[of _ "r + 1"], subst scan_back.simps) auto
    next
      case False
      from "1.IH"[OF \<open>r \<ge> 0\<close> ch False] "1.prems" \<open>r \<ge> 0\<close>
      obtain a where a: "0 \<le> a" "a \<le> r"
        "\<forall>k. a \<le> k \<and> k \<le> r - 1 \<longrightarrow> (\<exists>ch. line k = Some ch \<and> ch \<noteq> CHR '' '')"
        "a = 0 \<or> line (a - 1) = Some CHR '' ''"
        "scan_back line (r - 1) (ch # letters)
           = Some (map (\<lambda>k. the (line k)) [a..r - 1] @ ch # letters)"
        by auto
      have run: "\<forall>k. a \<le> k \<and> k \<le> r \<longrightarrow> (\<exists>ch. line k = Some ch \<and> ch \<noteq> CHR '' '')"
      proof (intro allI impI)
        fix k assume "a \<le> k \<and> k \<le> r"
        then consider "k \<le> r - 1" "a \<le> k" | "k = r" by linarith
        then show "\<exists>ch. line k = Some ch \<and> ch \<noteq> CHR '' ''"
          using a(3) ch False by cases auto
      qed
      have "[a..r] = [a..r - 1] @ [r]" using a(2) by (simp add: upto_rec2)
      then have "scan_back line r letters = Some (map (\<lambda>k. the (line k)) [a..r] @ letters)"
        using a(5) ch False \<open>r \<ge> 0\<close> by (subst scan_back.simps) simp
      with a run show ?thesis by (intro exI[of _ a]) simp
    qed
  qed
qed

lemma scan_forward_run:
  assumes "r \<le> n" and "\<forall>k. r \<le> k \<and> k < n \<longrightarrow> line k \<noteq> None"
  shows "\<exists>b. r - 1 \<le> b \<and> b < n \<and>
           (\<forall>k. r \<le> k \<and> k \<le> b \<longrightarrow> (\<exists>ch. line k = Some ch \<and> ch \<noteq> CHR '' '')) \<and>
           (b = n - 1 \<or> line (b + 1) = Some CHR '' '') \<and>
           scan_forward n line r acc = Some (acc @ map (\<lambda>k. the (line k)) [r..b])"
  using assms
proof (induction n line r acc rule: scan_forward.induct)
  case (1 n line r letters)
  show ?case
  proof (cases "r < n")
    case False
    with "1.prems" have "r = n" by simp
    then show ?thesis by (intro exI[of _ "n - 1"], subst scan_forward.simps) auto
  next
    case True
    with "1.prems" obtain ch where ch: "line r = Some ch" by auto
    show ?thesis
    proof (cases "ch = CHR '' ''")
      case True
      with ch \<open>r < n\<close> show ?thesis
        by (intro exI[of _ "r - 1"], subst scan_forward.simps) auto
    next
      case False
      from "1.IH"[OF \<open>r < n\<close> ch False] "1.prems" \<open>r < n\<close>
      obtain b where b: "r \<le> b" "b < n"
        "\<forall>k. r + 1 \<le> k \<and> k \<le> b \<longrightarrow> (\<exists>ch. line k = Some ch \<and> ch \<noteq> CHR '' '')"
        "b = n - 1 \<or> line (b + 1) = Some CHR '' ''"
        "scan_forward n line (r + 1) (letters @ [ch])
           = Some ((letters @ [ch]) @ map (\<lambda>k. the (line k)) [r + 1..b])"
        by auto
      have run: "\<forall>k. r \<le> k \<and> k \<le> b \<longrightarrow> (\<exists>ch. line k = Some ch \<and> ch \<noteq> CHR '' '')"
      proof (intro allI impI)
        fix k assume "r \<le> k \<and> k \<le> b"
        then consider "r + 1 \<le> k" "k \<le> b" | "k = r" by linarith
        then show "\<exists>ch. line k = Some ch \<and> ch \<noteq> CHR '' ''"
          using b(3) ch False by cases auto
      qed
      have "[r..b] = r # [r + 1..b]" using b(1) by (simp add: upto_rec1)
      then have "scan_forward n line r letters
                   = Some (letters @ map (\<lambda>k. the (line k)) [r..b])"
        using b(5) ch False \<open>r < n\<close> by (subst scan_forward.simps) simp
      with b run show ?thesis by (intro exI[of _ b]) simp
    qed
  qed
qed

lemma perp_line_run:
  assumes "0 \<le> p" "p < n" and "\<forall>k. 0 \<le> k \<and> k < n \<longrightarrow> line k \<noteq> None"
  shows "\<exists>a b. maximal_run line n p a b \<and>
     (scan_back line (p - 1) [] \<bind> (\<lambda>letters. scan_forward n line (p + 1) (letters @ ''?'')))
       = Some (run_text line p a b)"
proof -
  from scan_back_run[of "p - 1" line "[]"] assms
  obtain a where a: "0 \<le> a" "a \<le> p"
     "\<forall>k. a \<le> k \<and> k \<le> p - 1 \<longrightarrow> (\<exists>ch. line k = Some ch \<and> ch \<noteq> CHR '' '')"
     "a = 0 \<or> line (a - 1) = Some CHR '' ''"
     "scan_back line (p - 1) [] = Some (map (\<lambda>k. the (line k)) [a..p - 1])"
    by auto
  from scan_forward_run[of "p + 1" n line "map (\<lambda>k. the (line k)) [a..p - 1] @ ''?''"] assms
  obtain b where b: "p \<le> b" "b < n"
     "\<forall>k. p + 1 \<le> k \<and> k \<le> b \<longrightarrow> (\<exists>ch. line k = Some ch \<and> ch \<noteq> CHR '' '')"
     "b = n - 1 \<or> line (b + 1) = Some CHR '' ''"
     "scan_forward n line (p + 1) (map (\<lambda>k. the (line k)) [a..p - 1] @ ''?'')
        = Some ((map (\<lambda>k. the (line k)) [a..p - 1] @ ''?'')
                  @ map (\<lambda>k. the (line k)) [p + 1..b])"
    by auto
  have "maximal_run line n p a b"
    unfolding maximal_run_def
  proof (intro conjI ballI impI)
    fix k assume "k \<in> set [a..b]" "k \<noteq> p"
    then consider "a \<le> k" "k \<le> p - 1" | "p + 1 \<le> k" "k \<le> b" by auto linarith
    then show "\<exists>ch. line k = Some ch \<and> ch \<noteq> CHR '' ''"
      using a(3) b(3) by cases auto
  qed (use a b in auto)
  moreover have "(scan_back line (p - 1) []
      \<bind> (\<lambda>letters. scan_forward n line (p + 1) (letters @ ''?'')))
       = Some (run_text line p a b)"
    using a(5) b(5) by (simp add: run_text_def)
  ultimately show ?thesis by blast
qed

lemma maximal_run_no_neighbour:
  assumes "maximal_run line n p a b" "no_neighbour line n p"
  shows "a = p \<and> b = p"
proof -
  from assms(1) have bounds: "0 \<le> a" "a \<le> p" "p \<le> b" "b < n"
    and run: "\<And>k. a \<le> k \<Longrightarrow> k \<le> b \<Longrightarrow> k \<noteq> p
                 \<Longrightarrow> \<exists>ch. line k = Some ch \<and> ch \<noteq> CHR '' ''"
    by (auto simp: maximal_run_def)
  from assms(2) have before: "p = 0 \<or> line (p - 1) = Some CHR '' ''"
    and after: "p = n - 1 \<or> line (p + 1) = Some CHR '' ''"
    by (auto simp: no_neighbour_def)
  have "a = p"
  proof (rule ccontr)
    assume "a \<noteq> p"
    with bounds have "a \<le> p - 1" "p - 1 \<le> b" "p - 1 \<noteq> p" "p \<noteq> 0" by auto
    with run[of "p - 1"] before show False by auto
  qed
  moreover have "b = p"
  proof (rule ccontr)
    assume "b \<noteq> p"
    with bounds have "a \<le> p + 1" "p + 1 \<le> b" "p + 1 \<noteq> p" "p \<noteq> n - 1" by auto
    with run[of "p + 1"] after show False by auto
  qed
  ultimately show ?thesis by simp
qed

lemma orthogonal_line_defined:
  assumes "wf_grid e s" "0 \<le> row" "row < grid_size e" "0 \<le> col" "col < grid_size e"
  shows "\<forall>k. 0 \<le> k \<and> k < grid_size e \<longrightarrow> orthogonal_line s row col d k \<noteq> None"
  using assms by (simp add: orthogonal_line_def cell_in_range)

lemma build_perpendicular_word_line:
  "build_perpendicular_word e s row col d =
     scan_back (orthogonal_line s row col d) (orthogonal_pos row col d - 1) []
       \<bind> (\<lambda>letters. scan_forward (grid_size e) (orthogonal_line s row col d)
                         (orthogonal_pos row col d + 1) (letters @ ''?''))"
  by (simp add: build_perpendicular_word_def orthogonal_line_def orthogonal_pos_def)

lemma build_perpendicular_word_run:
  assumes "wf_grid e s" "0 \<le> row" "row < grid_size e" "0 \<le> col" "col < grid_size e"
  shows "\<exists>a b. maximal_run (orthogonal_line s row col d) (grid_size e)
                  (orthogonal_pos row col d) a b \<and>
     build_perpendicular_word e s row col d
       = Some (run_text (orthogonal_line s row col d) (orthogonal_pos row col d) a b)"
proof -
  have "0 \<le> orthogonal_pos row col d" "orthogonal_pos row col d < grid_size e"
    using assms by (simp_all add: orthogonal_pos_def)
  from perp_line_run[OF this orthogonal_line_defined[OF assms]]
  show ?thesis by (simp add: build_perpendicular_word_line)
qed

subsection \<open>build_perpendicular_word returns the maximal run\<close>

text \<open>
  C5. For a well-formed grid and an in-bounds cell \<open>(row, col)\<close>, whatever the
  placement axis, \<open>build_perpendicular_word\<close> returns the letters of the maximal
  contiguous run of non-empty cells through \<open>(row, col)\<close> on the orthogonal line, in
  board order, with the placeholder \<open>?\<close> at the position of \<open>(row, col)\<close>; when
  neither orthogonal neighbour holds a letter the result is the placeholder alone.
\<close>

theorem build_perpendicular_word_maximal_run:
  assumes "wf_grid e s" "0 \<le> row" "row < grid_size e" "0 \<le> col" "col < grid_size e"
  shows "(\<exists>a b. maximal_run (orthogonal_line s row col d) (grid_size e)
                   (orthogonal_pos row col d) a b \<and>
            build_perpendicular_word e s row col d
              = Some (run_text (orthogonal_line s row col d) (orthogonal_pos row col d) a b)) \<and>
         (no_neighbour (orthogonal_line s row col d) (grid_size e) (orthogonal_pos row col d)
            \<longrightarrow> build_perpendicular_word e s row col d = Some ''?'')"
proof (intro conjI impI)
  show run: "\<exists>a b. maximal_run (orthogonal_line s row col d) (grid_size e)
                   (orthogonal_pos row col d) a b \<and>
            build_perpendicular_word e s row col d
              = Some (run_text (orthogonal_line s row col d) (orthogonal_pos row col d) a b)"
    by (rule build_perpendicular_word_run[OF assms])
  assume alone: "no_neighbour (orthogonal_line s row col d) (grid_size e)
                   (orthogonal_pos row col d)"
  from run obtain a b where
    ab: "maximal_run (orthogonal_line s row col d) (grid_size e) (orthogonal_pos row col d) a b"
    and res: "build_perpendicular_word e s row col d
      = Some (run_text (orthogonal_line s row col d) (orthogonal_pos row col d) a b)"
    by blast
  from maximal_run_no_neighbour[OF ab alone] res
  show "build_perpendicular_word e s row col d = Some ''?''"
    by (simp add: run_text_def)
qed

theorem build_perpendicular_word_maximal_run_witness:
  "wf_grid example_engine example_state \<and>
   (\<exists>a b. maximal_run (orthogonal_line example_state 1 0 ''across'') 3 1 a b \<and>
      build_perpendicular_word example_engine example_state 1 0 ''across''
        = Some (run_text (orthogonal_line example_state 1 0 ''across'') 1 a b)) \<and>
   no_neighbour (orthogonal_line example_state 1 2 ''down'') 3 2 \<and>
   build_perpendicular_word example_engine example_state 1 2 ''down'' = Some ''?''"
proof -
  have wf: "wf_grid example_engine example_state"
    by (simp add: wf_grid_def example_engine_def example_state_def)
  have n: "grid_size example_engine = 3" by (simp add: example_engine_def)
  have alone: "no_neighbour (orthogonal_line example_state 1 2 ''down'') 3 2"
    by (simp add: no_neighbour_def orthogonal_line_def example_state_def cell_def
          py_index_def)
  from build_perpendicular_word_maximal_run[of example_engine example_state 1 0 "''across''"]
       build_perpendicular_word_maximal_run[of example_engine example_state 1 2 "''down''"]
       wf alone
  show ?thesis by (simp add: n orthogonal_pos_def)
qed

subsection \<open>The validator\<close>

lemma length_upper [simp]: "length (upper w) = length w"
  by (simp add: upper_def)

lemma length_replace_char [simp]: "length (replace_char a b s) = length s"
  by (simp add: replace_char_def)

lemma build_perpendicular_word_nonempty:
  assumes "wf_grid e s" "on_board e r c"
  shows "\<exists>pw. build_perpendicular_word e s r c d = Some pw \<and> 1 \<le> length pw"
proof -
  from assms have "0 \<le> r" "r < grid_size e" "0 \<le> c" "c < grid_size e"
    by (simp_all add: on_board_def)
  from build_perpendicular_word_run[OF assms(1) this, of d]
  show ?thesis by (auto simp: run_text_def)
qed

lemma check_letters_step:
  assumes wf: "wf_grid e s"
    and on: "case covered_cell row col direction i of (r, c) \<Rightarrow> on_board e r c"
  shows "check_letters e s row col direction ((i, ch) # rest) =
           (if letter_ok e s row col direction i ch
            then check_letters e s row col direction rest else Some False)"
proof -
  obtain r c where rc: "covered_cell row col direction i = (r, c)" by force
  with on have ob: "on_board e r c" by simp
  then obtain x where x: "cell (grid s) r c = Some x"
    using cell_in_range[OF wf] by (auto simp: on_board_def)
  from build_perpendicular_word_nonempty[OF wf ob, of direction]
  obtain pw where pw: "build_perpendicular_word e s r c direction = Some pw" "1 \<le> length pw"
    by blast
  have cr: "(if direction = ''across'' then row else row + int i) = r"
    and cc: "(if direction = ''across'' then col + int i else col) = c"
    using rc by (auto simp: covered_cell_def split: if_splits)
  show ?thesis
    using pw(2)
    by (auto simp: letter_ok_def rc cr cc x pw(1) checked_word_def Let_def)
qed

lemma check_letters_all:
  assumes wf: "wf_grid e s"
    and on: "\<forall>j < length ws. case covered_cell row col direction (k + j) of
                               (r, c) \<Rightarrow> on_board e r c"
  shows "check_letters e s row col direction (List.enumerate k ws) =
           Some (\<forall>j \<in> set [0..<length ws]. letter_ok e s row col direction (k + j) (ws ! j))"
  using on
proof (induction ws arbitrary: k)
  case Nil
  then show ?case by simp
next
  case (Cons ch ws)
  from Cons.prems have here: "case covered_cell row col direction k of (r, c) \<Rightarrow> on_board e r c"
    by force
  have rest: "\<forall>j < length ws. case covered_cell row col direction (Suc k + j) of
                               (r, c) \<Rightarrow> on_board e r c"
    using Cons.prems by force
  have split: "(\<forall>j \<in> set [0..<length (ch # ws)].
                   letter_ok e s row col direction (k + j) ((ch # ws) ! j)) \<longleftrightarrow>
        letter_ok e s row col direction k ch \<and>
        (\<forall>j \<in> set [0..<length ws]. letter_ok e s row col direction (Suc k + j) (ws ! j))"
    (is "?L \<longleftrightarrow> ?H \<and> ?T")
  proof
    assume l: ?L
    have ?H using l[rule_format, of 0] by simp
    moreover have ?T
    proof
      fix j assume "j \<in> set [0..<length ws]"
      then have "Suc j \<in> set [0..<length (ch # ws)]" by auto
      from l[rule_format, OF this] show "letter_ok e s row col direction (Suc k + j) (ws ! j)"
        by simp
    qed
    ultimately show "?H \<and> ?T" ..
  next
    assume r: "?H \<and> ?T"
    show ?L
    proof
      fix j assume j: "j \<in> set [0..<length (ch # ws)]"
      show "letter_ok e s row col direction (k + j) ((ch # ws) ! j)"
      proof (cases j)
        case 0
        with r show ?thesis by simp
      next
        case (Suc j')
        with j have "j' \<in> set [0..<length ws]" by auto
        with r Suc show ?thesis by simp
      qed
    qed
  qed
  show ?case
    unfolding enumerate_simps check_letters_step[OF wf here] Cons.IH[OF rest] split
    by simp
qed

lemma check_boundaries_spec:
  assumes wf: "wf_grid e s" and start: "on_board e row col"
    and fits: "span_fits e word row col direction"
  shows "check_boundaries e s word row col direction
           = Some (ends_isolated e s word row col direction)"
proof (cases "direction = ''across''")
  case True
  have left: "col > 0 \<Longrightarrow> \<exists>x. cell (grid s) row (col - 1) = Some x"
    using cell_in_range[OF wf, of row "col - 1"] start by (auto simp: on_board_def)
  have right: "col + int (length word) < grid_size e
        \<Longrightarrow> \<exists>x. cell (grid s) row (col + int (length word)) = Some x"
    using cell_in_range[OF wf, of row "col + int (length word)"] start
    by (auto simp: on_board_def)
  show ?thesis
    using True start fits left right
    by (auto simp: check_boundaries_def ends_isolated_def empty_or_off_board_def
          on_board_def occupied_def span_fits_def Let_def)
next
  case False
  have top: "row > 0 \<Longrightarrow> \<exists>x. cell (grid s) (row - 1) col = Some x"
    using cell_in_range[OF wf, of "row - 1" col] start by (auto simp: on_board_def)
  have bottom: "row + int (length word) < grid_size e
        \<Longrightarrow> \<exists>x. cell (grid s) (row + int (length word)) col = Some x"
    using cell_in_range[OF wf, of "row + int (length word)" col] start
    by (auto simp: on_board_def)
  show ?thesis
    using False start fits top bottom
    by (auto simp: check_boundaries_def ends_isolated_def empty_or_off_board_def
          on_board_def occupied_def span_fits_def Let_def)
qed

lemma span_fits_on_board:
  assumes "on_board e row col" "span_fits e word row col direction"
  shows "\<forall>j < length word. case covered_cell row col direction (0 + j) of
                               (r, c) \<Rightarrow> on_board e r c"
  using assms by (auto simp: on_board_def span_fits_def covered_cell_def Let_def)

text \<open>What the validator computes, in the terms of its loop.\<close>

lemma can_place_word_scrabble_result:
  assumes wf: "wf_grid e s" and start: "on_board e row col"
  shows "can_place_word_scrabble e s word row col direction
           = Some (span_fits e (upper word) row col direction \<and>
                   (\<forall>j \<in> set [0..<length (upper word)].
                      letter_ok e s row col direction (0 + j) (upper word ! j)) \<and>
                   ends_isolated e s (upper word) row col direction)"
proof (cases "span_fits e (upper word) row col direction")
  case False
  with start show ?thesis
    by (cases "direction = ''across''")
       (auto simp: can_place_word_scrabble_def span_fits_def on_board_def Let_def)
next
  case True
  have guard: "\<not> (direction = ''across'' \<and> col + int (length (upper word)) > grid_size e)"
    "\<not> (direction \<noteq> ''across'' \<and> row + int (length (upper word)) > grid_size e)"
    using True by (auto simp: span_fits_def Let_def)
  note loop = check_letters_all[OF wf span_fits_on_board[OF start True]]
  show ?thesis
    unfolding can_place_word_scrabble_def Let_def
    using guard loop check_boundaries_spec[OF wf start True] True
    by auto
qed

text \<open>
  On a board that holds no question mark, putting the letter for the placeholder gives
  the run with the letter at the cell.
\<close>

lemma replace_char_absent: "a \<notin> set s \<Longrightarrow> replace_char a b s = s"
  by (induction s) (auto simp: replace_char_def)

lemma replace_char_append:
  "replace_char a b (xs @ ys) = replace_char a b xs @ replace_char a b ys"
  by (simp add: replace_char_def)

lemma orthogonal_line_letter:
  assumes wf: "wf_grid e s" and on: "on_board e row col"
    and k: "0 \<le> k" "k < grid_size e"
    and plain: "placeholder_free (grid s)"
  shows "the (orthogonal_line s row col d k) \<noteq> CHR ''?''"
proof -
  from on have rc: "0 \<le> row" "row < grid_size e" "0 \<le> col" "col < grid_size e"
    by (simp_all add: on_board_def)
  have inside: "\<And>r c. 0 \<le> r \<Longrightarrow> r < grid_size e \<Longrightarrow> 0 \<le> c \<Longrightarrow> c < grid_size e
                  \<Longrightarrow> the (cell (grid s) r c) \<noteq> CHR ''?''"
  proof -
    fix r c assume b: "0 \<le> r" "r < grid_size e" "0 \<le> c" "c < grid_size e"
    from wf b have mem: "grid s ! nat r \<in> set (grid s)"
      by (auto simp: wf_grid_def)
    with wf have "int (length (grid s ! nat r)) = grid_size e"
      by (simp add: wf_grid_def)
    with b have "nat c < length (grid s ! nat r)" by simp
    note mem this
    with plain have "grid s ! nat r ! nat c \<noteq> CHR ''?''"
      unfolding placeholder_free_def by (metis nth_mem)
    with cell_in_range[OF wf b] show "the (cell (grid s) r c) \<noteq> CHR ''?''" by simp
  qed
  show ?thesis
    using inside[of k col] inside[of row k] rc k by (simp add: orthogonal_line_def)
qed

lemma checked_word_run:
  assumes wf: "wf_grid e s" and on: "on_board e row col"
    and plain: "placeholder_free (grid s)"
  shows "\<exists>a b. maximal_run (orthogonal_line s row col d) (grid_size e)
                  (orthogonal_pos row col d) a b \<and>
           checked_word e s row col d letter =
             Some (crossing_word (orthogonal_line s row col d) (orthogonal_pos row col d)
                     a b letter)"
proof -
  let ?L = "orthogonal_line s row col d" and ?p = "orthogonal_pos row col d"
  from on have rc: "0 \<le> row" "row < grid_size e" "0 \<le> col" "col < grid_size e"
    by (simp_all add: on_board_def)
  from build_perpendicular_word_run[OF wf rc, of d] obtain a b where
    run: "maximal_run ?L (grid_size e) ?p a b"
    and res: "build_perpendicular_word e s row col d = Some (run_text ?L ?p a b)"
    by blast
  from run have bounds: "0 \<le> a" "b < grid_size e" by (simp_all add: maximal_run_def)
  have before: "CHR ''?'' \<notin> set (map (\<lambda>k. the (?L k)) [a..?p - 1])"
  proof
    assume "CHR ''?'' \<in> set (map (\<lambda>k. the (?L k)) [a..?p - 1])"
    then obtain k where "a \<le> k" "k \<le> ?p - 1" "the (?L k) = CHR ''?''" by auto
    moreover from run have "?p \<le> b" by (simp add: maximal_run_def)
    ultimately show False
      using orthogonal_line_letter[OF wf on _ _ plain, of k d] bounds by simp
  qed
  have after: "CHR ''?'' \<notin> set (map (\<lambda>k. the (?L k)) [?p + 1..b])"
  proof
    assume "CHR ''?'' \<in> set (map (\<lambda>k. the (?L k)) [?p + 1..b])"
    then obtain k where "?p + 1 \<le> k" "k \<le> b" "the (?L k) = CHR ''?''" by auto
    moreover from run have "a \<le> ?p" by (simp add: maximal_run_def)
    ultimately show False
      using orthogonal_line_letter[OF wf on _ _ plain, of k d] bounds by simp
  qed
  have "replace_char CHR ''?'' letter (run_text ?L ?p a b) =
          map (\<lambda>k. the (?L k)) [a..?p - 1] @ [letter] @ map (\<lambda>k. the (?L k)) [?p + 1..b]"
    unfolding run_text_def replace_char_append
    by (simp add: replace_char_absent[OF before] replace_char_absent[OF after])
       (simp add: replace_char_def)
  with run res show ?thesis by (auto simp: checked_word_def crossing_word_def)
qed

lemma maximal_run_unique:
  assumes "maximal_run line n p a b" "maximal_run line n p a' b'"
  shows "a = a' \<and> b = b'"
proof -
  have start: "x = x'" if "maximal_run line n p x y" "maximal_run line n p x' y'" "x \<le> x'"
    for x y x' y'
  proof (rule ccontr)
    assume "x \<noteq> x'"
    with that(3) have lt: "x < x'" by simp
    from that(1,2) have "0 \<le> x" "x' \<le> p" "p \<le> y" by (simp_all add: maximal_run_def)
    with lt have "x' - 1 \<in> set [x..y]" "x' - 1 \<noteq> p" "x' \<noteq> 0" by auto
    moreover from that(1) have "\<forall>k \<in> set [x..y]. k \<noteq> p \<longrightarrow>
        (\<exists>ch. line k = Some ch \<and> ch \<noteq> CHR '' '')"
      by (simp add: maximal_run_def)
    moreover from that(2) have "x' = 0 \<or> line (x' - 1) = Some CHR '' ''"
      by (simp add: maximal_run_def)
    ultimately show False by auto
  qed
  have stop: "y = y'" if "maximal_run line n p x y" "maximal_run line n p x' y'" "y' \<le> y"
    for x y x' y'
  proof (rule ccontr)
    assume "y \<noteq> y'"
    with that(3) have lt: "y' < y" by simp
    from that(1,2) have "y < n" "p \<le> y'" "x \<le> p" by (simp_all add: maximal_run_def)
    with lt have "y' + 1 \<in> set [x..y]" "y' + 1 \<noteq> p" "y' \<noteq> n - 1" by auto
    moreover from that(1) have "\<forall>k \<in> set [x..y]. k \<noteq> p \<longrightarrow>
        (\<exists>ch. line k = Some ch \<and> ch \<noteq> CHR '' '')"
      by (simp add: maximal_run_def)
    moreover from that(2) have "y' = n - 1 \<or> line (y' + 1) = Some CHR '' ''"
      by (simp add: maximal_run_def)
    ultimately show False by auto
  qed
  have "a = a'"
    using start[OF assms] start[OF assms(2,1)] by (cases "a \<le> a'") auto
  moreover have "b = b'"
    using stop[OF assms] stop[OF assms(2,1)] by (cases "b' \<le> b") auto
  ultimately show ?thesis by simp
qed

lemma letter_ok_spec:
  assumes wf: "wf_grid e s"
    and on: "case covered_cell row col direction i of (r, c) \<Rightarrow> on_board e r c"
    and plain: "placeholder_free (grid s)"
  shows "letter_ok e s row col direction i ch \<longleftrightarrow>
     (case covered_cell row col direction i of
        (r, c) \<Rightarrow>
          (cell (grid s) r c = Some CHR '' '' \<or> cell (grid s) r c = Some ch) \<and>
          (cell (grid s) r c = Some CHR '' '' \<longrightarrow>
             (\<exists>a b. maximal_run (orthogonal_line s r c direction) (grid_size e)
                      (orthogonal_pos r c direction) a b \<and>
                    (length (crossing_word (orthogonal_line s r c direction)
                               (orthogonal_pos r c direction) a b ch) = 1 \<or>
                     trie_contains e
                       (crossing_word (orthogonal_line s r c direction)
                          (orthogonal_pos r c direction) a b ch)))))"
proof -
  obtain r c where rc: "covered_cell row col direction i = (r, c)" by force
  with on have ob: "on_board e r c" by simp
  let ?L = "orthogonal_line s r c direction" and ?p = "orthogonal_pos r c direction"
  from checked_word_run[OF wf ob plain, of direction ch] obtain a0 b0 where
    run0: "maximal_run ?L (grid_size e) ?p a0 b0"
    and res: "checked_word e s r c direction ch = Some (crossing_word ?L ?p a0 b0 ch)"
    by blast
  have "(\<exists>a b. maximal_run ?L (grid_size e) ?p a b \<and>
               (length (crossing_word ?L ?p a b ch) = 1 \<or>
                trie_contains e (crossing_word ?L ?p a b ch))) \<longleftrightarrow>
        (length (crossing_word ?L ?p a0 b0 ch) = 1 \<or>
         trie_contains e (crossing_word ?L ?p a0 b0 ch))"
    using run0 maximal_run_unique[OF _ run0] by blast
  then show ?thesis by (simp add: letter_ok_def rc res)
qed

lemma letters_ok_spec:
  assumes wf: "wf_grid e s"
    and on: "\<forall>j < length word. case covered_cell row col direction (0 + j) of
                                  (r, c) \<Rightarrow> on_board e r c"
    and plain: "placeholder_free (grid s)"
  shows "(\<forall>j \<in> set [0..<length word]. letter_ok e s row col direction (0 + j) (word ! j)) \<longleftrightarrow>
     cells_compatible s word row col direction \<and> perpendicular_valid e s word row col direction"
proof -
  have each: "letter_ok e s row col direction j (word ! j) \<longleftrightarrow>
     (case covered_cell row col direction j of
        (r, c) \<Rightarrow>
          (cell (grid s) r c = Some CHR '' '' \<or> cell (grid s) r c = Some (word ! j)) \<and>
          (cell (grid s) r c = Some CHR '' '' \<longrightarrow>
             (\<exists>a b. maximal_run (orthogonal_line s r c direction) (grid_size e)
                      (orthogonal_pos r c direction) a b \<and>
                    (length (crossing_word (orthogonal_line s r c direction)
                               (orthogonal_pos r c direction) a b (word ! j)) = 1 \<or>
                     trie_contains e
                       (crossing_word (orthogonal_line s r c direction)
                          (orthogonal_pos r c direction) a b (word ! j))))))"
    if "j \<in> set [0..<length word]" for j
  proof -
    from that on have "case covered_cell row col direction j of (r, c) \<Rightarrow> on_board e r c"
      by simp
    from letter_ok_spec[OF wf this plain] show ?thesis .
  qed
  have "(\<forall>j \<in> set [0..<length word].
            letter_ok e s row col direction (0 + j) (word ! j)) \<longleftrightarrow>
        (\<forall>j \<in> set [0..<length word].
           case covered_cell row col direction j of
             (r, c) \<Rightarrow>
               (cell (grid s) r c = Some CHR '' '' \<or> cell (grid s) r c = Some (word ! j)) \<and>
               (cell (grid s) r c = Some CHR '' '' \<longrightarrow>
                  (\<exists>a b. maximal_run (orthogonal_line s r c direction) (grid_size e)
                           (orthogonal_pos r c direction) a b \<and>
                         (length (crossing_word (orthogonal_line s r c direction)
                                    (orthogonal_pos r c direction) a b (word ! j)) = 1 \<or>
                          trie_contains e
                            (crossing_word (orthogonal_line s r c direction)
                               (orthogonal_pos r c direction) a b (word ! j))))))"
    by (rule ball_cong[OF refl]) (simp add: each)
  then show ?thesis
    unfolding cells_compatible_def perpendicular_valid_def
    by (simp add: case_prod_unfold ball_conj_distrib)
qed

lemma can_place_word_scrabble_upper:
  assumes wf: "wf_grid e s" and start: "on_board e row col"
    and plain: "placeholder_free (grid s)"
  shows "can_place_word_scrabble e s word row col direction
           = Some (can_place_spec e s (upper word) row col direction)"
proof (cases "span_fits e (upper word) row col direction")
  case False
  with can_place_word_scrabble_result[OF wf start, of word direction]
  show ?thesis by (simp add: can_place_spec_def)
next
  case True
  from letters_ok_spec[OF wf span_fits_on_board[OF start True] plain]
       can_place_word_scrabble_result[OF wf start, of word direction]
  show ?thesis by (simp add: can_place_spec_def)
qed

text \<open>
  C1, as amended. For a well-formed grid no cell of which holds the placeholder
  character \<open>?\<close>, and a start cell on the board, the validator returns true if and
  only if the four conditions hold: the span fits, every covered cell is empty or holds
  the letter of the word there, the perpendicular word at every empty covered cell,
  with the letter at the cell, has length 1 or is in the dictionary, and both ends are
  isolated. The validator upper-cases the word first, so the letters are those of the
  upper-cased word.
\<close>

theorem can_place_word_scrabble_four_conditions:
  assumes "wf_grid e s" "0 \<le> row" "row < grid_size e" "0 \<le> col" "col < grid_size e"
    and "placeholder_free (grid s)"
  shows "can_place_word_scrabble e s word row col direction =
           Some (span_fits e (upper word) row col direction \<and>
                 cells_compatible s (upper word) row col direction \<and>
                 perpendicular_valid e s (upper word) row col direction \<and>
                 ends_isolated e s (upper word) row col direction)"
proof -
  from assms have "on_board e row col" by (simp add: on_board_def)
  from can_place_word_scrabble_upper[OF assms(1) this assms(6)]
  show ?thesis by (simp add: can_place_spec_def)
qed

theorem can_place_word_scrabble_four_conditions_witness:
  "wf_grid example_engine example_state \<and>
   placeholder_free (grid example_state) \<and>
   can_place_word_scrabble example_engine example_state ''cat'' 1 0 ''across'' = Some True \<and>
   span_fits example_engine (upper ''cat'') 1 0 ''across'' \<and>
   cells_compatible example_state (upper ''cat'') 1 0 ''across'' \<and>
   perpendicular_valid example_engine example_state (upper ''cat'') 1 0 ''across'' \<and>
   ends_isolated example_engine example_state (upper ''cat'') 1 0 ''across''"
proof -
  have wf: "wf_grid example_engine example_state"
    by (simp add: wf_grid_def example_engine_def example_state_def)
  have plain: "placeholder_free (grid example_state)"
    by (simp add: placeholder_free_def example_state_def)
  have n: "grid_size example_engine = 3" by (simp add: example_engine_def)
  have run: "can_place_word_scrabble example_engine example_state ''cat'' 1 0 ''across''
               = Some True"
    by code_simp
  from can_place_word_scrabble_four_conditions
         [of example_engine example_state 1 0 "''cat''" "''across''"] wf plain run
  show ?thesis by (simp add: n)
qed

text \<open>
  C1 as stated fails on a board that holds \<open>?\<close>. With \<open>?\<close> at \<open>(0, 0)\<close> the scan of
  the column through \<open>(1, 0)\<close> gives \<open>??\<close>, the validator puts \<open>A\<close> for both question
  marks and looks up \<open>AA\<close>, which is in the dictionary, and accepts \<open>A\<close> across at
  \<open>(1, 0)\<close>; the word formed in the column is \<open>?A\<close>, which is not.
\<close>

theorem can_place_word_scrabble_four_conditions_counterexample:
  "can_place_word_scrabble question_engine question_state ''A'' 1 0 ''across'' = Some True \<and>
   \<not> perpendicular_valid question_engine question_state (upper ''A'') 1 0 ''across''"
proof -
  let ?L = "orthogonal_line question_state 1 0 ''across''"
  have run: "can_place_word_scrabble question_engine question_state ''A'' 1 0 ''across''
               = Some True"
    by code_simp
  have up: "upper ''A'' = ''A''" by code_simp
  have n: "grid_size question_engine = 2" by (simp add: question_engine_def)
  have L0: "?L 0 = Some CHR ''?''"
    by (simp add: orthogonal_line_def question_state_def cell_def py_index_def)
  have here: "cell (grid question_state) 1 0 = Some CHR '' ''"
    by (simp add: question_state_def cell_def py_index_def)
  have whole: "maximal_run ?L 2 1 0 1"
    unfolding maximal_run_def
  proof (intro conjI ballI impI)
    fix k :: int assume "k \<in> set [0..1]" "k \<noteq> 1"
    then have "k = 0" by auto
    then show "\<exists>ch. ?L k = Some ch \<and> ch \<noteq> CHR '' ''" by (simp add: L0)
  qed simp_all
  have formed: "crossing_word ?L 1 0 1 CHR ''A'' = ''?A''"
    by (simp add: crossing_word_def L0 upto_rec1)
  have absent: "\<not> trie_contains question_engine ''?A''"
    by code_simp
  have "\<not> perpendicular_valid question_engine question_state (upper ''A'') 1 0 ''across''"
  proof
    assume "perpendicular_valid question_engine question_state (upper ''A'') 1 0 ''across''"
    then have "\<exists>a b. maximal_run ?L 2 1 a b \<and>
                 (length (crossing_word ?L 1 a b CHR ''A'') = 1 \<or>
                  trie_contains question_engine (crossing_word ?L 1 a b CHR ''A''))"
      by (simp add: perpendicular_valid_def up covered_cell_def here n orthogonal_pos_def)
    then obtain a b where ab: "maximal_run ?L 2 1 a b"
      and ok: "length (crossing_word ?L 1 a b CHR ''A'') = 1 \<or>
               trie_contains question_engine (crossing_word ?L 1 a b CHR ''A'')"
      by blast
    from maximal_run_unique[OF ab whole] have "a = 0" "b = 1" by simp_all
    with ok formed absent show False by simp
  qed
  with run show ?thesis by simp
qed

subsection \<open>The validator accepts a negative start\<close>

text \<open>
  C6. The bounds check compares only the end of the span with \<open>grid_size\<close>. With
  \<open>col = -1\<close> the check passes, the read of column \<open>-1\<close> is Python's read of the
  last column, and on an empty 3 by 3 board the validator accepts \<open>AB\<close> across at
  \<open>(0, -1)\<close>, a placement that covers a cell outside the board; the read at column
  \<open>-1\<close> returns the cell of column 2. Nor is the other coordinate checked: across at
  row 3 the read of \<open>grid[3]\<close> raises IndexError.
\<close>

theorem can_place_word_scrabble_negative_start:
  "can_place_word_scrabble example_engine (fresh_state 3) ''AB'' 0 (-1) ''across'' = Some True \<and>
   \<not> on_board example_engine 0 (-1) \<and>
   \<not> span_fits example_engine ''AB'' 0 (-1) ''across'' \<and>
   cell (grid (fresh_state 3)) 0 (-1) = cell (grid (fresh_state 3)) 0 2 \<and>
   can_place_word_scrabble example_engine (fresh_state 3) ''AB'' 3 0 ''across'' = None"
proof -
  have "can_place_word_scrabble example_engine (fresh_state 3) ''AB'' 0 (-1) ''across''
          = Some True"
    by code_simp
  moreover have "cell (grid (fresh_state 3)) 0 (-1) = cell (grid (fresh_state 3)) 0 2"
    by code_simp
  moreover have "can_place_word_scrabble example_engine (fresh_state 3) ''AB'' 3 0 ''across''
                   = None"
    by code_simp
  ultimately show ?thesis by (simp add: on_board_def span_fits_def)
qed

subsection \<open>The connectivity rule\<close>

lemma any_neighbour_spec:
  assumes wf: "wf_grid e s"
  shows "any_neighbour e s r c ds =
           Some (\<exists>(dr, dc) \<in> set ds.
                   on_board e (r + dr) (c + dc) \<and>
                   (\<exists>ch. cell (grid s) (r + dr) (c + dc) = Some ch \<and> ch \<noteq> CHR '' ''))"
proof (induction ds)
  case Nil
  then show ?case by simp
next
  case (Cons d ds)
  obtain dr dc where d: "d = (dr, dc)" by force
  show ?case
  proof (cases "on_board e (r + dr) (c + dc)")
    case False
    then show ?thesis using Cons.IH by (auto simp: d on_board_def Let_def)
  next
    case True
    then obtain x where x: "cell (grid s) (r + dr) (c + dc) = Some x"
      using cell_in_range[OF wf] by (auto simp: on_board_def)
    from True have guard: "0 \<le> r + dr \<and> r + dr < grid_size e \<and> 0 \<le> c + dc \<and> c + dc < grid_size e"
      by (simp add: on_board_def)
    show ?thesis
      using Cons.IH True guard by (auto simp: d Let_def occupied_def x split: bool.splits)
  qed
qed

lemma any_neighbour_orthogonal:
  assumes "wf_grid e s"
  shows "any_neighbour e s r c orthogonal_directions = Some (has_occupied_neighbour e s r c)"
  unfolding any_neighbour_spec[OF assms] has_occupied_neighbour_def orthogonal_directions_def
  by (rule refl)

lemma connect_letters_spec:
  assumes wf: "wf_grid e s"
    and on: "\<forall>i \<in> set idx. case covered_cell row col direction i of (r, c) \<Rightarrow> on_board e r c"
  shows "connect_letters e s word row col direction idx =
           Some (\<exists>i \<in> set idx.
                   case covered_cell row col direction i of
                     (r, c) \<Rightarrow> cell (grid s) r c = Some (word ! i)
                                 \<or> has_occupied_neighbour e s r c)"
  using on
proof (induction idx)
  case Nil
  then show ?case by simp
next
  case (Cons i idx)
  obtain r c where rc: "covered_cell row col direction i = (r, c)" by force
  with Cons.prems have ob: "on_board e r c" by simp
  then obtain x where x: "cell (grid s) r c = Some x"
    using cell_in_range[OF wf] by (auto simp: on_board_def)
  have cr: "(if direction = ''across'' then row else row + int i) = r"
    and cc: "(if direction = ''across'' then col + int i else col) = c"
    using rc by (auto simp: covered_cell_def split: if_splits)
  from Cons have IH: "connect_letters e s word row col direction idx =
           Some (\<exists>i \<in> set idx.
                   case covered_cell row col direction i of
                     (r, c) \<Rightarrow> cell (grid s) r c = Some (word ! i)
                                 \<or> has_occupied_neighbour e s r c)"
    by simp
  show ?case
    by (auto simp: Let_def cr cc x rc IH any_neighbour_orthogonal[OF wf] split: bool.splits)
qed

text \<open>What the method computes: the comparison of line 193 is on raw characters.\<close>

lemma has_connection_result:
  assumes wf: "wf_grid e s"
    and on: "placement_on_board e (upper word) row col direction"
  shows "has_connection_to_existing e s word row col direction
           = Some (length (placed_words s) = 0 \<or>
                   (\<exists>i \<in> set [0..<length (upper word)].
                      case covered_cell row col direction i of
                        (r, c) \<Rightarrow> cell (grid s) r c = Some (upper word ! i)
                                    \<or> has_occupied_neighbour e s r c))"
proof (cases "length (placed_words s) = 0")
  case True
  then show ?thesis by (simp add: has_connection_to_existing_def)
next
  case False
  from on have "\<forall>i \<in> set [0..<length (upper word)].
      case covered_cell row col direction i of (r, c) \<Rightarrow> on_board e r c"
    by (simp only: placement_on_board_def)
  from connect_letters_spec[OF wf this, of "upper word"] False
  show ?thesis by (simp add: has_connection_to_existing_def Let_def)
qed

text \<open>
  C4, as amended. For a well-formed grid, a word that holds no space and a placement
  whose cells, those the upper-cased word covers, are all on the board,
  \<open>has_connection_to_existing\<close> returns true if and only if no word has been placed,
  or some letter position of the upper-cased candidate lies on a cell holding that
  letter or has an occupied orthogonal neighbour on the board.
\<close>

theorem has_connection_to_existing_iff:
  assumes "wf_grid e s" "placement_on_board e (upper word) row col direction"
    and "CHR '' '' \<notin> set (upper word)"
  shows "has_connection_to_existing e s word row col direction
           = Some (connection_spec e s (upper word) row col direction)"
proof -
  have letter: "\<And>i. i \<in> set [0..<length (upper word)] \<Longrightarrow> upper word ! i \<noteq> CHR '' ''"
    using assms(3) by (metis atLeastLessThan_iff nth_mem set_upt)
  have "(\<exists>i \<in> set [0..<length (upper word)].
          case covered_cell row col direction i of
            (r, c) \<Rightarrow>
              (cell (grid s) r c = Some (upper word ! i) \<and>
               cell (grid s) r c \<noteq> Some CHR '' '') \<or>
              has_occupied_neighbour e s r c) \<longleftrightarrow>
        (\<exists>i \<in> set [0..<length (upper word)].
          case covered_cell row col direction i of
            (r, c) \<Rightarrow> cell (grid s) r c = Some (upper word ! i)
                        \<or> has_occupied_neighbour e s r c)"
  proof (rule bex_cong[OF refl])
    fix i assume "i \<in> set [0..<length (upper word)]"
    from letter[OF this] show "(case covered_cell row col direction i of
            (r, c) \<Rightarrow>
              (cell (grid s) r c = Some (upper word ! i) \<and>
               cell (grid s) r c \<noteq> Some CHR '' '') \<or>
              has_occupied_neighbour e s r c) \<longleftrightarrow>
          (case covered_cell row col direction i of
            (r, c) \<Rightarrow> cell (grid s) r c = Some (upper word ! i)
                        \<or> has_occupied_neighbour e s r c)"
      by (cases "covered_cell row col direction i") auto
  qed
  then have "connection_spec e s (upper word) row col direction \<longleftrightarrow>
      (length (placed_words s) = 0 \<or>
       (\<exists>i \<in> set [0..<length (upper word)].
          case covered_cell row col direction i of
            (r, c) \<Rightarrow> cell (grid s) r c = Some (upper word ! i)
                        \<or> has_occupied_neighbour e s r c))"
    unfolding connection_spec_def by (rule arg_cong[of _ _ "\<lambda>x. length (placed_words s) = 0 \<or> x"])
  with has_connection_result[OF assms(1,2)] show ?thesis by (simp only:)
qed

theorem has_connection_to_existing_iff_witness:
  "wf_grid example_engine corner_state \<and>
   placement_on_board example_engine (upper ''ab'') 1 0 ''across'' \<and>
   CHR '' '' \<notin> set (upper ''ab'') \<and>
   has_connection_to_existing example_engine corner_state ''ab'' 1 0 ''across''
     = Some (connection_spec example_engine corner_state (upper ''ab'') 1 0 ''across'') \<and>
   has_connection_to_existing example_engine corner_state ''ab'' 1 0 ''across'' = Some True"
proof -
  have wf: "wf_grid example_engine corner_state"
    by (simp add: wf_grid_def example_engine_def corner_state_def)
  have on: "placement_on_board example_engine (upper ''ab'') 1 0 ''across''"
    by (simp add: placement_on_board_def covered_cell_def on_board_def example_engine_def
          upt_rec)
  have plain: "CHR '' '' \<notin> set (upper ''ab'')"
    by code_simp
  have run: "has_connection_to_existing example_engine corner_state ''ab'' 1 0 ''across''
               = Some True"
    by code_simp
  from has_connection_to_existing_iff[OF wf on plain] wf on plain run show ?thesis by simp
qed

text \<open>
  The hypothesis on spaces is needed. The comparison \<open>grid[r][c] == word[i]\<close> holds of
  an empty cell where the word has a space: \<open>A B\<close> across the empty top row connects,
  though no covered cell holds a letter and none has an occupied neighbour.
\<close>

lemma has_connection_to_existing_space:
  "has_connection_to_existing example_engine corner_state ''A B'' 0 0 ''across'' = Some True \<and>
   \<not> connection_spec example_engine corner_state (upper ''A B'') 0 0 ''across''"
proof -
  have "has_connection_to_existing example_engine corner_state ''A B'' 0 0 ''across''
          = Some True"
    by code_simp
  moreover have "\<not> connection_spec example_engine corner_state (upper ''A B'') 0 0 ''across''"
    by code_simp
  ultimately show ?thesis by simp
qed

text \<open>
  C4 as stated fails off the board: the second letter of \<open>AB\<close> placed across
  at \<open>(0, 2)\<close> on a 3 by 3 board is at column 3, the read raises IndexError, and the
  method returns neither true nor false.
\<close>

theorem has_connection_to_existing_counterexample:
  "has_connection_to_existing example_engine corner_state ''AB'' 0 2 ''across'' = None \<and>
   has_connection_to_existing example_engine corner_state ''AB'' 0 2 ''across''
     \<noteq> Some (connection_spec example_engine corner_state (upper ''AB'') 0 2 ''across'')"
proof -
  have "has_connection_to_existing example_engine corner_state ''AB'' 0 2 ''across'' = None"
    by code_simp
  then show ?thesis by simp
qed

subsection \<open>The search loop\<close>

lemma try_placements_False:
  "try_placements f word ps s = Some (False, s')
     \<Longrightarrow> grid s' = grid s \<and> placed_words s' = placed_words s"
proof (induction ps arbitrary: s)
  case Nil
  then show ?case by simp
next
  case (Cons p ps)
  obtain row col direction x where p: "p = (row, col, direction, x)"
    by (cases p) auto
  from Cons.prems obtain s1 s2 where
    "place_word s word row col direction = Some s1" "f s1 = Some (False, s2)"
    and rest: "try_placements f word ps (s2\<lparr>grid := grid s, placed_words := placed_words s\<rparr>)
                 = Some (False, s')"
    by (auto simp: p Let_def split: option.splits bool.splits)
  from Cons.IH[OF rest] show ?case by simp
qed

lemma try_placements_True:
  "try_placements f word ps s = Some (True, s')
     \<Longrightarrow> \<exists>row col direction x s0 s1.
           (row, col, direction, x) \<in> set ps \<and>
           grid s0 = grid s \<and> placed_words s0 = placed_words s \<and>
           place_word s0 word row col direction = Some s1 \<and> f s1 = Some (True, s')"
proof (induction ps arbitrary: s)
  case Nil
  then show ?case by simp
next
  case (Cons p ps)
  obtain row col direction x where p: "p = (row, col, direction, x)"
    by (cases p) auto
  from Cons.prems obtain s1 b s2 where
    pl: "place_word s word row col direction = Some s1" and f: "f s1 = Some (b, s2)"
    by (auto simp: p Let_def split: option.splits)
  show ?case
  proof (cases b)
    case True
    with Cons.prems pl f have "s2 = s'" by (simp add: p Let_def)
    with pl f True show ?thesis unfolding p by (intro exI[of _ row] exI[of _ col]
        exI[of _ direction] exI[of _ x] exI[of _ s] exI[of _ s1]) simp
  next
    case False
    with Cons.prems pl f have
      rest: "try_placements f word ps (s2\<lparr>grid := grid s, placed_words := placed_words s\<rparr>)
               = Some (True, s')"
      by (simp add: p Let_def)
    from Cons.IH[OF rest] show ?thesis by (simp add: p) blast
  qed
qed

lemma backtrack_solve_False:
  assumes "backtrack_solve e w word_index s = Some (False, s')"
  shows "grid s' = grid s \<and> placed_words s' = placed_words s"
proof -
  from assms show ?thesis
    apply (subst (asm) backtrack_solve.simps)
    apply (auto simp: Let_def split: option.splits if_splits bool.splits
             dest!: try_placements_False)
    done
qed


text \<open>
  C3. Whenever \<open>_backtrack_solve\<close> returns false, whether by the timeout, with no
  candidate or after every candidate has failed, the grid and the placed words are
  those of the state at entry.
\<close>

theorem backtrack_solve_failure_restores:
  assumes "backtrack_solve e w word_index s = Some (False, s')"
  shows "grid s' = grid s \<and> placed_words s' = placed_words s"
  using assms by (rule backtrack_solve_False)

theorem backtrack_solve_failure_restores_witness:
  "\<exists>s'. backtrack_solve tiny_engine still_world 0 ((fresh_state 2)\<lparr>start_time := Some 0\<rparr>)
           = Some (False, s') \<and>
        grid s' = [''  '', ''  ''] \<and> placed_words s' = []"
proof -
  have "map_option fst
          (backtrack_solve tiny_engine still_world 0 ((fresh_state 2)\<lparr>start_time := Some 0\<rparr>))
        = Some False"
    by code_simp
  then obtain s' where
    run: "backtrack_solve tiny_engine still_world 0 ((fresh_state 2)\<lparr>start_time := Some 0\<rparr>)
            = Some (False, s')"
    by auto
  have "grid ((fresh_state 2)\<lparr>start_time := Some 0\<rparr>) = [''  '', ''  '']"
    by code_simp
  with backtrack_solve_failure_restores[OF run] run show ?thesis
    by (auto simp: fresh_state_def)
qed

subsection \<open>A successful search is a sequence of placements\<close>

lemma upper_char_idem: "upper_char (upper_char c) = upper_char c"
  by (auto simp: upper_char_def Let_def)

lemma upper_idem [simp]: "upper (upper w) = upper w"
  by (simp add: upper_def upper_char_idem)

lemma place_word_placed:
  "place_word s word row col direction = Some s1
     \<Longrightarrow> placed_words s1 = placed_words s @ [(upper word, row, col, direction)]"
  by (auto simp: place_word_def Let_def split: option.splits)

lemma place_word_frame:
  assumes "grid t = grid s" "place_word s word row col direction = Some s1"
  shows "\<exists>t1. place_word t word row col direction = Some t1 \<and> grid t1 = grid s1"
  using assms by (auto simp: place_word_def Let_def split: option.splits)

lemma place_word_upper:
  "place_word s (upper word) row col direction = place_word s word row col direction"
  by (simp add: place_word_def)

lemma replay_frame:
  "grid t = grid s \<Longrightarrow> replay s pls = Some s'
     \<Longrightarrow> \<exists>t'. replay t pls = Some t' \<and> grid t' = grid s'"
proof (induction pls arbitrary: s t)
  case Nil
  then show ?case by simp
next
  case (Cons p pls)
  obtain word row col direction where p: "p = (word, row, col, direction)"
    by (cases p) auto
  from Cons.prems(2) obtain s1 where
    s1: "place_word s word row col direction = Some s1" and rest: "replay s1 pls = Some s'"
    by (auto simp: p split: option.splits)
  from place_word_frame[OF Cons.prems(1) s1] obtain t1 where
    t1: "place_word t word row col direction = Some t1" "grid t1 = grid s1"
    by blast
  from Cons.IH[OF t1(2) rest] t1(1) show ?case by (simp add: p)
qed

lemma replay_placed:
  "replay s pls = Some s' \<Longrightarrow> placed_words s' = placed_words s @ map recorded pls"
proof (induction pls arbitrary: s)
  case Nil
  then show ?case by simp
next
  case (Cons p pls)
  obtain word row col direction where p: "p = (word, row, col, direction)"
    by (cases p) auto
  from Cons.prems obtain s1 where
    s1: "place_word s word row col direction = Some s1" and rest: "replay s1 pls = Some s'"
    by (auto simp: p split: option.splits)
  from Cons.IH[OF rest] place_word_placed[OF s1] show ?case by (simp add: p recorded_def)
qed

lemma replay_append:
  "replay s (xs @ ys) = (case replay s xs of None \<Rightarrow> None | Some t \<Rightarrow> replay t ys)"
  by (induction xs arbitrary: s) (auto split: option.splits)

lemma replay_upper: "replay s (map recorded pls) = replay s pls"
  by (induction pls arbitrary: s)
     (auto simp: place_word_upper recorded_def split: option.splits)

lemma fst_recorded: "map fst (map recorded pls) = map upper (map fst pls)"
  by (induction pls) (auto simp: recorded_def)

lemma backtrack_solve_True:
  "backtrack_solve e w word_index s = Some (True, s')
     \<Longrightarrow> \<exists>pls t. (0 \<le> word_index \<longrightarrow> map fst pls = drop (nat word_index) (words e)) \<and>
               replay s pls = Some t \<and> grid t = grid s' \<and> placed_words t = placed_words s'"
proof (induction "nat (int (length (words e)) - word_index)" arbitrary: word_index s s'
         rule: less_induct)
  case less
  let ?s = "s\<lparr>clock_reads := clock_reads s + 1\<rparr>"
  from less.prems obtain started where started: "start_time s = Some started"
    by (subst (asm) backtrack_solve.simps) (auto simp: Let_def split: option.splits)
  from less.prems started have running: "\<not> clock w (clock_reads s) - started > timeout e"
    by (subst (asm) backtrack_solve.simps) (auto simp: Let_def split: if_splits option.splits)
  show ?case
  proof (cases "word_index \<ge> int (length (words e))")
    case True
    with less.prems started running have "s' = ?s"
      by (subst (asm) backtrack_solve.simps) (simp add: Let_def)
    with True show ?thesis
      by (intro exI[of _ "[]"] exI[of _ s]) simp
  next
    case False
    from less.prems started running False obtain word valid where
      word: "py_index (words e) word_index = Some word"
      and loop: "try_placements (backtrack_solve e w (word_index + 1)) word
                   (sort_placements w (rand_draws ?s) valid)
                   (?s\<lparr>rand_draws := rand_draws ?s + length valid\<rparr>) = Some (True, s')"
      by (subst (asm) backtrack_solve.simps)
         (auto simp: Let_def split: option.splits bool.splits)
    from try_placements_True[OF loop] obtain row col direction s0 s1 where
      s0: "grid s0 = grid s" "placed_words s0 = placed_words s"
      and s1: "place_word s0 word row col direction = Some s1"
      and next_call: "backtrack_solve e w (word_index + 1) s1 = Some (True, s')"
      by auto
    from False have "nat (int (length (words e)) - (word_index + 1))
                       < nat (int (length (words e)) - word_index)"
      by simp
    from less.hyps[OF this next_call] obtain pls t where
      pls: "0 \<le> word_index + 1 \<longrightarrow> map fst pls = drop (nat (word_index + 1)) (words e)"
      and t: "replay s1 pls = Some t" "grid t = grid s'" "placed_words t = placed_words s'"
      by blast
    from place_word_frame[OF s0(1)[symmetric] s1] obtain u1 where
      u1: "place_word s word row col direction = Some u1" "grid u1 = grid s1"
      by blast
    from replay_frame[OF u1(2) t(1)] obtain u where
      u: "replay u1 pls = Some u" "grid u = grid t"
      by blast
    have placed: "placed_words u = placed_words s'"
      using replay_placed[OF u(1)] replay_placed[OF t(1)] place_word_placed[OF u1(1)]
        place_word_placed[OF s1] s0(2) t(3) by simp
    have names: "0 \<le> word_index \<longrightarrow>
        map fst ((word, row, col, direction) # pls) = drop (nat word_index) (words e)"
    proof
      assume nonneg: "0 \<le> word_index"
      with False have lt: "nat word_index < length (words e)" by simp
      from word nonneg lt have "word = words e ! nat word_index"
        by (auto simp: py_index_def Let_def split: if_splits)
      moreover from pls nonneg have "map fst pls = drop (Suc (nat word_index)) (words e)"
        by (simp add: nat_add_distrib)
      ultimately show "map fst ((word, row, col, direction) # pls)
                         = drop (nat word_index) (words e)"
        using lt by (simp add: Cons_nth_drop_Suc)
    qed
    have "replay s ((word, row, col, direction) # pls) = Some u"
      using u1(1) u(1) by simp
    moreover have "grid u = grid s'" using u(2) t(2) by simp
    ultimately show ?thesis
      using names placed
      by (intro exI[of _ "(word, row, col, direction) # pls"] exI[of _ u]) simp
  qed
qed

subsection \<open>generate_puzzle\<close>

lemma generate_puzzle_False:
  assumes "generate_puzzle e w s = Some (False, s')"
  shows "grid s' = grid s \<and> placed_words s' = placed_words s"
proof -
  let ?s = "s\<lparr>start_time := Some (clock w (clock_reads s)), clock_reads := clock_reads s + 1\<rparr>"
  from assms obtain t where t: "backtrack_solve e w 0 ?s = Some (False, t)"
    and s': "s' = t\<lparr>clock_reads := clock_reads t + 1\<rparr>"
    by (auto simp: generate_puzzle_def Let_def split: option.splits)
  from backtrack_solve_False[OF t] s' show ?thesis by simp
qed

lemma generate_puzzle_True:
  assumes "generate_puzzle e w s = Some (True, s')"
  shows "\<exists>pls t. map fst pls = words e \<and> replay s pls = Some t \<and>
                 grid t = grid s' \<and> placed_words t = placed_words s'"
proof -
  let ?s = "s\<lparr>start_time := Some (clock w (clock_reads s)), clock_reads := clock_reads s + 1\<rparr>"
  from assms obtain t where t: "backtrack_solve e w 0 ?s = Some (True, t)"
    and s': "s' = t\<lparr>clock_reads := clock_reads t + 1\<rparr>"
    by (auto simp: generate_puzzle_def Let_def split: option.splits)
  from backtrack_solve_True[OF t] obtain pls u where
    pls: "map fst pls = words e" and u: "replay ?s pls = Some u" "grid u = grid t"
      "placed_words u = placed_words t"
    by auto
  have "grid s = grid ?s" by simp
  from replay_frame[OF this u(1)] obtain v where v: "replay s pls = Some v" "grid v = grid u"
    by blast
  have "placed_words v = placed_words u"
    using replay_placed[OF v(1)] replay_placed[OF u(1)] by simp
  with pls v u s' show ?thesis
    by (intro exI[of _ pls] exI[of _ v]) simp
qed

subsection \<open>Replaying the recorded placements\<close>

lemma lower_engine_run:
  "map_option fst (generate_puzzle lower_engine still_world (fresh_state 3)) = Some True"
  by code_simp

lemma replay_consistent_fresh: "replay_consistent n (fresh_state n)"
  by (simp add: replay_consistent_def fresh_state_def)

lemma new_engine_state: "snd (new_engine pick word_list n) = fresh_state n"
  by (simp add: new_engine_def fresh_state_def)

lemma new_engine_grid_size: "grid_size (fst (new_engine pick word_list n)) = n"
  by (simp add: new_engine_def)

lemma replay_consistent_step:
  assumes inv: "replay_consistent n s" and run: "replay s pls = Some t"
    and same: "grid t = grid s'" "placed_words t = placed_words s'"
  shows "replay_consistent n s'"
proof -
  from inv obtain t0 where
    t0: "replay (fresh_state n) (placed_words s) = Some t0" "grid t0 = grid s"
    by (auto simp: replay_consistent_def)
  from replay_frame[OF t0(2) run] obtain t1 where
    t1: "replay t0 pls = Some t1" "grid t1 = grid t"
    by blast
  have "placed_words s' = placed_words s @ map recorded pls"
    using replay_placed[OF run] same(2) by simp
  then have "replay (fresh_state n) (placed_words s') = Some t1"
    using t0(1) t1(1) by (simp add: replay_append replay_upper)
  with t1(2) same(1) show ?thesis by (simp add: replay_consistent_def)
qed

text \<open>
  C2. When \<open>generate_puzzle\<close> succeeds from a state whose grid is the replay of its
  placed words, as the freshly constructed engine is, replaying the final placed
  words in recorded order with \<open>place_word\<close> onto an empty board gives the final grid.
\<close>

theorem generate_puzzle_replay:
  assumes "replay_consistent (grid_size e) s" "generate_puzzle e w s = Some (True, s')"
  shows "map_option grid (replay (fresh_state (grid_size e)) (placed_words s')) = Some (grid s')"
proof -
  from generate_puzzle_True[OF assms(2)] obtain pls t where
    "replay s pls = Some t" "grid t = grid s'" "placed_words t = placed_words s'"
    by blast
  from replay_consistent_step[OF assms(1) this] show ?thesis
    by (simp add: replay_consistent_def)
qed

theorem generate_puzzle_replay_witness:
  "\<exists>s'. replay_consistent (grid_size lower_engine) (fresh_state 3) \<and>
        generate_puzzle lower_engine still_world (fresh_state 3) = Some (True, s') \<and>
        map_option grid (replay (fresh_state 3) (placed_words s')) = Some (grid s')"
proof -
  have n: "grid_size lower_engine = 3"
    by (simp add: lower_engine_def new_engine_grid_size)
  have fresh: "replay_consistent (grid_size lower_engine) (fresh_state 3)"
    by (simp add: n replay_consistent_fresh)
  from lower_engine_run obtain s' where
    run: "generate_puzzle lower_engine still_world (fresh_state 3) = Some (True, s')"
    by auto
  from generate_puzzle_replay[OF fresh run] fresh run show ?thesis
    by (auto simp: n)
qed

subsection \<open>One placed word for each input word\<close>

lemma concat_groupby_len: "concat (groupby_len xs) = xs"
  by (induction xs rule: groupby_len.induct) simp_all

lemma shuffle_loop_mset:
  "i < length xs \<or> i = 0 \<Longrightarrow> mset (fst (shuffle_loop pick k i xs)) = mset xs"
proof (induction i arbitrary: k xs)
  case 0
  then show ?case by simp
next
  case (Suc i)
  let ?j = "pick k mod (Suc i + 1)"
  from Suc.prems have i: "Suc i < length xs" by simp
  have "?j < Suc i + 1" by (rule mod_less_divisor) simp
  with i have j: "?j < length xs" by linarith
  have "mset (xs[Suc i := xs ! ?j, ?j := xs ! Suc i]) = mset xs"
    using j i by (rule mset_swap)
  moreover have "i < length (xs[Suc i := xs ! ?j, ?j := xs ! Suc i]) \<or> i = 0"
    using i by simp
  ultimately show ?case using Suc.IH by (simp add: Let_def)
qed

lemma shuffle_mset: "mset (fst (shuffle pick k xs)) = mset xs"
proof -
  have "length xs - 1 < length xs \<or> length xs - 1 = 0" by (cases xs) simp_all
  then show ?thesis unfolding shuffle_def by (rule shuffle_loop_mset)
qed

lemma shuffle_groups_mset: "mset (shuffle_groups pick k gs) = mset (concat gs)"
proof (induction gs arbitrary: k)
  case Nil
  then show ?case by simp
next
  case (Cons g gs)
  obtain shuffled k' where sh: "shuffle pick k g = (shuffled, k')" by force
  with shuffle_mset[of pick k g] have "mset shuffled = mset g" by simp
  with Cons.IH[of k'] sh show ?case by simp
qed

lemma new_engine_words:
  "mset (words (fst (new_engine pick word_list n))) = mset word_list"
  by (simp add: new_engine_def shuffle_groups_mset concat_groupby_len sorted_by_len_desc_def)

text \<open>
  C7. When \<open>generate_puzzle\<close> returns true on a freshly constructed engine, the placed
  words are the upper-cased words of the engine, one entry for each in search order;
  the engine's words are a rearrangement of the input word list, so there are as many
  entries as input words.
\<close>

theorem generate_puzzle_places_every_word:
  assumes "new_engine pick word_list n = (e, s)" "generate_puzzle e w s = Some (True, s')"
  shows "map fst (placed_words s') = map upper (words e) \<and>
         mset (map fst (placed_words s')) = mset (map upper word_list) \<and>
         length (placed_words s') = length word_list"
proof -
  from assms(1) have s: "s = fresh_state n" and e: "e = fst (new_engine pick word_list n)"
    using new_engine_state[of pick word_list n] by simp_all
  from generate_puzzle_True[OF assms(2)] obtain pls t where
    pls: "map fst pls = words e" and t: "replay s pls = Some t"
    and same: "placed_words t = placed_words s'"
    by blast
  from replay_placed[OF t] same pls s fst_recorded[of pls]
  have names: "map fst (placed_words s') = map upper (words e)"
    by (simp add: fresh_state_def)
  have perm: "mset (words e) = mset word_list"
    unfolding e by (rule new_engine_words)
  have "mset (map fst (placed_words s')) = mset (map upper word_list)"
    using names perm by (metis mset_map)
  moreover have "length (placed_words s') = length word_list"
    using names perm by (metis length_map size_mset)
  ultimately show ?thesis using names by simp
qed

theorem generate_puzzle_places_every_word_witness:
  "\<exists>s'. new_engine (\<lambda>k. 0) [''ab'', ''Ba'', ''cab''] 3 = (lower_engine, fresh_state 3) \<and>
        generate_puzzle lower_engine still_world (fresh_state 3) = Some (True, s') \<and>
        map fst (placed_words s') = map upper (words lower_engine) \<and>
        mset (map fst (placed_words s')) = mset (map upper [''ab'', ''Ba'', ''cab'']) \<and>
        length (placed_words s') = 3"
proof -
  have new: "new_engine (\<lambda>k. 0) [''ab'', ''Ba'', ''cab''] 3 = (lower_engine, fresh_state 3)"
    by (simp add: lower_engine_def prod_eq_iff new_engine_state)
  from lower_engine_run obtain s' where
    run: "generate_puzzle lower_engine still_world (fresh_state 3) = Some (True, s')"
    by auto
  from generate_puzzle_places_every_word[OF new run] new run show ?thesis
    by auto
qed

subsection \<open>A timeout of zero\<close>

lemma generate_puzzle_timed_out:
  assumes "clock w (Suc (clock_reads s)) - clock w (clock_reads s) > timeout e"
    and "stdout_accepts w (Starting (length (words e)))"
    and "stdout_accepts w (Timeout (timeout e))"
    and "stdout_accepts w
           (Completed (clock w (Suc (Suc (clock_reads s))) - clock w (clock_reads s)))"
  shows "generate_puzzle e w s =
           Some (False, s\<lparr>start_time := Some (clock w (clock_reads s)),
                          clock_reads := clock_reads s + 3\<rparr>)"
  using assms
  by (simp add: generate_puzzle_def Let_def py_print_def backtrack_solve.simps[of e w 0])

text \<open>
  C8, as amended. With a timeout of 0, if the clock reading of the first check in the
  solver is later than the reading stored as the start time, and standard output takes
  the three messages printed on the way (start, timeout, completion),
  \<open>generate_puzzle\<close> returns false without raising, and the grid and the placed words
  are unchanged.
\<close>

theorem generate_puzzle_timeout_zero:
  assumes "timeout e = 0" "clock w (clock_reads s) < clock w (Suc (clock_reads s))"
    and "stdout_accepts w (Starting (length (words e)))"
    and "stdout_accepts w (Timeout 0)"
    and "stdout_accepts w
           (Completed (clock w (Suc (Suc (clock_reads s))) - clock w (clock_reads s)))"
  shows "\<exists>s'. generate_puzzle e w s = Some (False, s') \<and>
              grid s' = grid s \<and> placed_words s' = placed_words s"
proof -
  from assms(1,2) have "clock w (Suc (clock_reads s)) - clock w (clock_reads s) > timeout e"
    by simp
  moreover from assms(1,4) have "stdout_accepts w (Timeout (timeout e))" by simp
  ultimately show ?thesis
    using generate_puzzle_timed_out[of e w s] assms(3,5) by simp
qed

theorem generate_puzzle_timeout_zero_witness:
  "timeout zero_timeout_engine = 0 \<and>
   clock ticking_world (clock_reads (fresh_state 1))
     < clock ticking_world (Suc (clock_reads (fresh_state 1))) \<and>
   stdout_accepts ticking_world (Starting (length (words zero_timeout_engine))) \<and>
   stdout_accepts ticking_world (Timeout 0) \<and>
   stdout_accepts ticking_world
     (Completed (clock ticking_world (Suc (Suc (clock_reads (fresh_state 1))))
                 - clock ticking_world (clock_reads (fresh_state 1)))) \<and>
   (\<exists>s'. generate_puzzle zero_timeout_engine ticking_world (fresh_state 1) = Some (False, s') \<and>
         grid s' = grid (fresh_state 1) \<and> placed_words s' = placed_words (fresh_state 1))"
proof -
  have t: "timeout zero_timeout_engine = 0" by (simp add: zero_timeout_engine_def)
  have c: "clock ticking_world (clock_reads (fresh_state 1))
             < clock ticking_world (Suc (clock_reads (fresh_state 1)))"
    by (simp add: ticking_world_def fresh_state_def)
  have p: "\<And>m. stdout_accepts ticking_world m" by (simp add: ticking_world_def)
  from generate_puzzle_timeout_zero[OF t c p p p] t c p show ?thesis by simp
qed

text \<open>
  C8 as stated fails when the two clock readings are equal, which \<open>time.time()\<close>
  allows: the check \<open>elapsed > 0\<close> is then false, the search runs, and here it
  places the word and returns true.
\<close>

theorem generate_puzzle_timeout_zero_counterexample:
  "timeout zero_timeout_engine = 0 \<and>
   map_option (\<lambda>(result, s'). (result, grid s', placed_words s'))
     (generate_puzzle zero_timeout_engine still_world (fresh_state 1))
     = Some (True, [''A''], [(''A'', 0, 0, ''across'')])"
proof -
  have "map_option (\<lambda>(result, s'). (result, grid s', placed_words s'))
     (generate_puzzle zero_timeout_engine still_world (fresh_state 1))
     = Some (True, [''A''], [(''A'', 0, 0, ''across'')])"
    by code_simp
  then show ?thesis by (simp add: zero_timeout_engine_def)
qed

text \<open>
  Nor does the timeout path return when standard output cannot encode the symbol of the
  timeout message: the \<open>print\<close> before \<open>return False\<close> raises.
\<close>

lemma generate_puzzle_timeout_print_raises:
  "generate_puzzle zero_timeout_engine ascii_world (fresh_state 1) = None"
  by code_simp

subsection \<open>The engine's outputs are upper case\<close>

lemma py_index_mem: "py_index xs i = Some x \<Longrightarrow> x \<in> set xs"
  by (auto simp: py_index_def Let_def split: if_splits)

lemma py_update_set: "py_update xs i v = Some ys \<Longrightarrow> set ys \<subseteq> insert v (set xs)"
  by (auto simp: py_update_def Let_def split: if_splits dest: set_update_subset_insert[THEN subsetD])

lemma set_cell_uppercase:
  assumes "uppercase_grid g" "upper_char ch = ch" "set_cell g r c ch = Some g'"
  shows "uppercase_grid g'"
proof -
  from assms(3) obtain row row' where
    row: "py_index g r = Some row" and row': "py_update row c ch = Some row'"
    and g': "py_update g r row' = Some g'"
    by (auto simp: set_cell_def bind_eq_Some_conv)
  from py_index_mem[OF row] have "row \<in> set g" .
  with assms(1) have old: "\<forall>x \<in> set row. x \<noteq> CHR '' '' \<longrightarrow> upper_char x = x"
    by (simp add: uppercase_grid_def)
  have new: "\<forall>x \<in> set row'. x \<noteq> CHR '' '' \<longrightarrow> upper_char x = x"
    using py_update_set[OF row'] old assms(2) by auto
  show ?thesis
    unfolding uppercase_grid_def
  proof
    fix line assume "line \<in> set g'"
    with py_update_set[OF g'] have "line = row' \<or> line \<in> set g" by auto
    with new assms(1)
    show "\<forall>x \<in> set line. x \<noteq> CHR '' '' \<longrightarrow> upper_char x = x"
      by (auto simp: uppercase_grid_def)
  qed
qed

lemma write_letters_uppercase:
  "uppercase_grid g \<Longrightarrow> \<forall>p \<in> set letters. upper_char (snd p) = snd p
     \<Longrightarrow> write_letters g row col direction letters = Some g' \<Longrightarrow> uppercase_grid g'"
proof (induction letters arbitrary: g)
  case Nil
  then show ?case by simp
next
  case (Cons p letters)
  obtain i ch where p: "p = (i, ch)" by force
  from Cons.prems(3) obtain g1 where
    g1: "(if direction = ''across'' then set_cell g row (col + int i) ch
          else set_cell g (row + int i) col ch) = Some g1"
    and rest: "write_letters g1 row col direction letters = Some g'"
    by (auto simp: p split: option.splits)
  from Cons.prems(2) have ch: "upper_char ch = ch" by (simp add: p)
  have "uppercase_grid g1"
    using g1 set_cell_uppercase[OF Cons.prems(1) ch] by (auto split: if_splits)
  from Cons.IH[OF this _ rest] Cons.prems(2) show ?case by simp
qed

lemma enumerate_upper:
  "\<forall>p \<in> set (List.enumerate k (upper word)). upper_char (snd p) = snd p"
proof
  fix p assume "p \<in> set (List.enumerate k (upper word))"
  then have "snd p \<in> snd ` set (List.enumerate k (upper word))" by (rule imageI)
  then have "snd p \<in> set (upper word)" by (simp flip: set_map)
  then show "upper_char (snd p) = snd p" by (auto simp: upper_def upper_char_idem)
qed

lemma place_word_uppercase:
  assumes "uppercase_state s" "place_word s word row col direction = Some s'"
  shows "uppercase_state s'"
proof -
  from assms(2) obtain g' where
    g': "write_letters (grid s) row col direction (List.enumerate 0 (upper word)) = Some g'"
    and s': "s' = s\<lparr>grid := g',
                     placed_words := placed_words s @ [(upper word, row, col, direction)]\<rparr>"
    by (auto simp: place_word_def Let_def split: option.splits)
  from assms(1) have "uppercase_grid (grid s)" by (simp add: uppercase_state_def)
  from write_letters_uppercase[OF this enumerate_upper g'] have "uppercase_grid g'" .
  with assms(1) show ?thesis by (auto simp: s' uppercase_state_def)
qed

lemma replay_uppercase:
  "uppercase_state s \<Longrightarrow> replay s pls = Some t \<Longrightarrow> uppercase_state t"
proof (induction pls arbitrary: s)
  case Nil
  then show ?case by simp
next
  case (Cons p pls)
  obtain word row col direction where p: "p = (word, row, col, direction)"
    by (cases p) auto
  from Cons.prems(2) obtain s1 where
    s1: "place_word s word row col direction = Some s1" and rest: "replay s1 pls = Some t"
    by (auto simp: p split: option.splits)
  from Cons.IH[OF place_word_uppercase[OF Cons.prems(1) s1] rest] show ?case .
qed

lemma uppercase_state_same:
  "grid t = grid s \<Longrightarrow> placed_words t = placed_words s
     \<Longrightarrow> uppercase_state s \<Longrightarrow> uppercase_state t"
  by (simp add: uppercase_state_def)

lemma backtrack_solve_uppercase:
  assumes "uppercase_state s" "backtrack_solve e w word_index s = Some (b, s')"
  shows "uppercase_state s'"
proof (cases b)
  case False
  with assms(2) backtrack_solve_False[of e w word_index s s']
  have "grid s' = grid s" "placed_words s' = placed_words s" by auto
  from uppercase_state_same[OF this assms(1)] show ?thesis .
next
  case True
  with assms(2) backtrack_solve_True[of e w word_index s s'] obtain pls t where
    t: "replay s pls = Some t" "grid t = grid s'" "placed_words t = placed_words s'"
    by auto
  from uppercase_state_same[OF t(2)[symmetric] t(3)[symmetric]
         replay_uppercase[OF assms(1) t(1)]]
  show ?thesis .
qed

lemma generate_puzzle_uppercase:
  assumes "uppercase_state s" "generate_puzzle e w s = Some (b, s')"
  shows "uppercase_state s'"
proof (cases b)
  case False
  with assms(2) generate_puzzle_False[of e w s s']
  have "grid s' = grid s" "placed_words s' = placed_words s" by auto
  from uppercase_state_same[OF this assms(1)] show ?thesis .
next
  case True
  with assms(2) generate_puzzle_True[of e w s s'] obtain pls t where
    t: "replay s pls = Some t" "grid t = grid s'" "placed_words t = placed_words s'"
    by auto
  from uppercase_state_same[OF t(2)[symmetric] t(3)[symmetric]
         replay_uppercase[OF assms(1) t(1)]]
  show ?thesis .
qed

lemma uppercase_grid_empty: "uppercase_grid (empty_grid n)"
  by (auto simp: uppercase_grid_def empty_grid_def)

lemma find_best_placement_same:
  "find_best_placement e w s word = Some (result, s')
     \<Longrightarrow> grid s' = grid s \<and> placed_words s' = placed_words s"
  by (auto simp: find_best_placement_def Let_def split: option.splits if_splits list.splits)

text \<open>
  C10. Whatever the case of the input words, every operation keeps the state upper
  case: \<open>place_word\<close> records the upper-cased word and writes its letters, the
  search and \<open>generate_puzzle\<close> change the state only through \<open>place_word\<close> or by
  restoring a snapshot, \<open>find_best_placement\<close> leaves grid and placed words alone, and
  \<open>clear_grid\<close> and the constructor start from an empty board. Upper case means that
  upper-casing changes nothing: every recorded word is its own upper-casing, and so is
  the character of every non-empty cell.
\<close>

theorem operations_keep_upper_case:
  assumes "uppercase_state s"
  shows "(\<forall>s'. place_word s word row col direction = Some s' \<longrightarrow>
            uppercase_state s' \<and>
            placed_words s' = placed_words s @ [(upper word, row, col, direction)]) \<and>
         (\<forall>b s'. backtrack_solve e w word_index s = Some (b, s') \<longrightarrow> uppercase_state s') \<and>
         (\<forall>b s'. generate_puzzle e w s = Some (b, s') \<longrightarrow> uppercase_state s') \<and>
         (\<forall>r s'. find_best_placement e w s word = Some (r, s') \<longrightarrow> uppercase_state s') \<and>
         uppercase_state (clear_grid e s) \<and>
         uppercase_state (snd (new_engine pick word_list n))"
proof (intro conjI allI impI)
  fix s' assume "place_word s word row col direction = Some s'"
  then show "uppercase_state s'"
    and "placed_words s' = placed_words s @ [(upper word, row, col, direction)]"
    using assms by (auto intro: place_word_uppercase place_word_placed)
next
  fix b s' assume "backtrack_solve e w word_index s = Some (b, s')"
  with assms show "uppercase_state s'" by (rule backtrack_solve_uppercase)
next
  fix b s' assume "generate_puzzle e w s = Some (b, s')"
  with assms show "uppercase_state s'" by (rule generate_puzzle_uppercase)
next
  fix r s' assume "find_best_placement e w s word = Some (r, s')"
  from find_best_placement_same[OF this]
  have "grid s' = grid s" "placed_words s' = placed_words s" by auto
  from uppercase_state_same[OF this assms] show "uppercase_state s'" .
next
  show "uppercase_state (clear_grid e s)"
    by (simp add: clear_grid_def uppercase_state_def uppercase_grid_empty)
next
  show "uppercase_state (snd (new_engine pick word_list n))"
    by (simp add: new_engine_def uppercase_state_def uppercase_grid_empty)
qed

theorem operations_keep_upper_case_witness:
  "uppercase_state (fresh_state 3) \<and>
   (\<exists>s'. place_word (fresh_state 3) ''cat'' 1 0 ''across'' = Some s' \<and>
         uppercase_state s' \<and> placed_words s' = [(''CAT'', 1, 0, ''across'')] \<and>
         grid s' = [''   '', ''CAT'', ''   '']) \<and>
   (\<exists>s'. generate_puzzle lower_engine still_world (fresh_state 3) = Some (True, s') \<and>
         uppercase_state s')"
proof -
  have fresh: "uppercase_state (fresh_state 3)"
    by (simp add: fresh_state_def uppercase_state_def uppercase_grid_empty)
  have "map_option (\<lambda>s'. (grid s', placed_words s'))
          (place_word (fresh_state 3) ''cat'' 1 0 ''across'')
        = Some ([''   '', ''CAT'', ''   ''], [(''CAT'', 1, 0, ''across'')])"
    by code_simp
  then obtain s1 where
    s1: "place_word (fresh_state 3) ''cat'' 1 0 ''across'' = Some s1"
      "grid s1 = [''   '', ''CAT'', ''   '']" "placed_words s1 = [(''CAT'', 1, 0, ''across'')]"
    by auto
  from lower_engine_run obtain s2 where
    s2: "generate_puzzle lower_engine still_world (fresh_state 3) = Some (True, s2)"
    by auto
  note inst = operations_keep_upper_case[OF fresh, of "''cat''" 1 0 "''across''"
      lower_engine still_world 0 "\<lambda>k. 0" "[]" 3]
  from inst s1(1) have "uppercase_state s1" by blast
  moreover from inst s2 have "uppercase_state s2" by blast
  ultimately show ?thesis using fresh s1 s2 by blast
qed

subsection \<open>The search raises no exception on a well-formed grid when every print succeeds\<close>

lemma all_positions_on_board:
  "(row, col, direction) \<in> set (all_positions e) \<Longrightarrow> on_board e row col"
  by (auto simp: all_positions_def py_range_def on_board_def)

lemma can_place_fits:
  assumes wf: "wf_grid e s" and start: "on_board e row col"
    and ok: "can_place_word_scrabble e s word row col direction = Some True"
  shows "span_fits e (upper word) row col direction"
  using can_place_word_scrabble_result[OF wf start, of word direction] ok
  by simp

lemma fits_placement_on_board:
  assumes "on_board e row col" "span_fits e (upper word) row col direction"
  shows "placement_on_board e (upper word) row col direction"
  using span_fits_on_board[OF assms] by (simp add: placement_on_board_def)

lemma count_intersections_total:
  assumes wf: "wf_grid e s"
    and on: "\<forall>i \<in> set idx. case covered_cell row col direction i of (r, c) \<Rightarrow> on_board e r c"
  shows "\<exists>n. count_intersections (grid s) word row col direction idx acc = Some n"
  using on
proof (induction idx arbitrary: acc)
  case Nil
  then show ?case by simp
next
  case (Cons i idx)
  obtain r c where rc: "covered_cell row col direction i = (r, c)" by force
  with Cons.prems have "on_board e r c" by simp
  then obtain x where x: "cell (grid s) r c = Some x"
    using cell_in_range[OF wf] by (auto simp: on_board_def)
  have "(if direction = ''across'' then cell (grid s) row (col + int i)
         else cell (grid s) (row + int i) col) = Some x"
    using rc x by (auto simp: covered_cell_def split: if_splits)
  moreover from Cons have "\<exists>n. count_intersections (grid s) word row col direction idx
      (if x = word ! i then acc + 1 else acc) = Some n"
    by simp
  ultimately show ?case by simp
qed

lemma collect_placements_total:
  assumes wf: "wf_grid e s"
    and pos: "\<forall>(row, col, direction) \<in> set positions. on_board e row col"
  shows "\<exists>ps. collect_placements e s word positions = Some ps \<and>
              (\<forall>p \<in> set ps. fitting e word p)"
  using pos
proof (induction positions)
  case Nil
  then show ?case by simp
next
  case (Cons p positions)
  obtain row col direction where p: "p = (row, col, direction)" by (cases p) auto
  from Cons.prems have start: "on_board e row col" by (simp add: p)
  from Cons obtain ps where
    ps: "collect_placements e s word positions = Some ps" "\<forall>p \<in> set ps. fitting e word p"
    by auto
  from can_place_word_scrabble_result[OF wf start, of word direction] obtain ok where
    ok: "can_place_word_scrabble e s word row col direction = Some ok"
    by simp
  show ?case
  proof (cases ok)
    case False
    with ok ps show ?thesis by (simp add: p)
  next
    case True
    with ok have fits: "span_fits e (upper word) row col direction"
      using can_place_fits[OF wf start] by simp
    from has_connection_result[OF wf fits_placement_on_board[OF start fits]]
    obtain connected where
      conn: "has_connection_to_existing e s word row col direction = Some connected"
      by simp
    have "\<forall>i \<in> set [0..<length word].
            case covered_cell row col direction i of (r, c) \<Rightarrow> on_board e r c"
      using fits_placement_on_board[OF start fits] by (simp add: placement_on_board_def)
    from count_intersections_total[OF wf this, of word 0] obtain n where
      n: "count_intersections (grid s) word row col direction [0..<length word] 0 = Some n"
      by blast
    show ?thesis
      using ok True conn n ps start fits by (cases connected) (simp_all add: p fitting_def)
  qed
qed

lemma set_sort_placements: "set (sort_placements w k ps) = set ps"
proof -
  have "map snd (map (\<lambda>(i, x). ((- (snd (snd (snd x))), rand w (k + i)), x))
          (List.enumerate 0 ps)) = ps"
    by (simp add: case_prod_unfold comp_def flip: map_map[of snd])
  then have "snd ` set (map (\<lambda>(i, x). ((- (snd (snd (snd x))), rand w (k + i)), x))
          (List.enumerate 0 ps)) = set ps"
    by (metis set_map)
  then show ?thesis by (simp add: sort_placements_def)
qed

lemma py_update_length: "py_update xs i v = Some ys \<Longrightarrow> length ys = length xs"
  by (auto simp: py_update_def Let_def split: if_splits)

lemma set_cell_total:
  assumes "wf_grid e s" "on_board e r c"
  shows "\<exists>g'. set_cell (grid s) r c ch = Some g' \<and> wf_grid e (s\<lparr>grid := g'\<rparr>)"
proof -
  from assms have r: "0 \<le> r" "r < int (length (grid s))"
    and row: "int (length (grid s ! nat r)) = grid_size e" and c: "0 \<le> c" "c < grid_size e"
    by (auto simp: wf_grid_def on_board_def)
  have "set_cell (grid s) r c ch = Some ((grid s)[nat r := (grid s ! nat r)[nat c := ch]])"
    using r row c by (simp add: set_cell_def py_index_def py_update_def Let_def)
  moreover have "wf_grid e (s\<lparr>grid := (grid s)[nat r := (grid s ! nat r)[nat c := ch]]\<rparr>)"
    using assms(1) row by (auto simp: wf_grid_def dest!: set_update_subset_insert[THEN subsetD])
  ultimately show ?thesis by simp
qed

lemma write_letters_total:
  assumes "wf_grid e s"
    and "\<forall>p \<in> set letters. case covered_cell row col direction (fst p) of
                               (r, c) \<Rightarrow> on_board e r c"
  shows "\<exists>g'. write_letters (grid s) row col direction letters = Some g' \<and>
              wf_grid e (s\<lparr>grid := g'\<rparr>)"
  using assms
proof (induction letters arbitrary: s)
  case Nil
  then show ?case by simp
next
  case (Cons p letters)
  obtain i ch where p: "p = (i, ch)" by force
  obtain r c where rc: "covered_cell row col direction i = (r, c)" by force
  with Cons.prems(2) have "on_board e r c" by (simp add: p)
  from set_cell_total[OF Cons.prems(1) this, of ch] obtain g1 where
    g1: "set_cell (grid s) r c ch = Some g1" "wf_grid e (s\<lparr>grid := g1\<rparr>)"
    by blast
  have step: "(if direction = ''across'' then set_cell (grid s) row (col + int i) ch
               else set_cell (grid s) (row + int i) col ch) = Some g1"
    using rc g1(1) by (auto simp: covered_cell_def split: if_splits)
  from Cons.IH[OF g1(2)] Cons.prems(2) obtain g' where
    "write_letters (grid (s\<lparr>grid := g1\<rparr>)) row col direction letters = Some g'"
    "wf_grid e (s\<lparr>grid := g1, grid := g'\<rparr>)"
    by auto
  with step show ?case by (simp add: p wf_grid_def)
qed

lemma place_word_total:
  assumes wf: "wf_grid e s" and fit: "fitting e word (row, col, direction, n)"
  shows "\<exists>s1. place_word s word row col direction = Some s1 \<and> wf_grid e s1 \<and>
              start_time s1 = start_time s"
proof -
  from fit have "on_board e row col" "span_fits e (upper word) row col direction"
    by (simp_all add: fitting_def)
  from span_fits_on_board[OF this]
  have "\<forall>p \<in> set (List.enumerate 0 (upper word)).
          case covered_cell row col direction (fst p) of (r, c) \<Rightarrow> on_board e r c"
    by (auto simp: in_set_enumerate_eq)
  from write_letters_total[OF wf this] obtain g' where
    "write_letters (grid s) row col direction (List.enumerate 0 (upper word)) = Some g'"
    "wf_grid e (s\<lparr>grid := g'\<rparr>)"
    by blast
  then show ?thesis by (simp add: place_word_def wf_grid_def)
qed

lemma try_placements_total:
  assumes total: "\<And>t. wf_grid e t \<Longrightarrow> start_time t \<noteq> None
                      \<Longrightarrow> \<exists>b t'. f t = Some (b, t') \<and> start_time t' = start_time t"
  shows "wf_grid e s \<Longrightarrow> start_time s \<noteq> None \<Longrightarrow> \<forall>p \<in> set ps. fitting e word p
           \<Longrightarrow> \<exists>b s'. try_placements f word ps s = Some (b, s') \<and> start_time s' = start_time s"
proof (induction ps arbitrary: s)
  case Nil
  show ?case by (intro exI[of _ False] exI[of _ s]) simp
next
  case (Cons p ps)
  obtain row col direction n where p: "p = (row, col, direction, n)" by (cases p) auto
  from Cons.prems(3) have "fitting e word (row, col, direction, n)" by (simp add: p)
  from place_word_total[OF Cons.prems(1) this] obtain s1 where
    s1: "place_word s word row col direction = Some s1" "wf_grid e s1"
      "start_time s1 = start_time s"
    by blast
  from total[OF s1(2)] s1(3) Cons.prems(2) obtain b s2 where
    s2: "f s1 = Some (b, s2)" "start_time s2 = start_time s"
    by auto
  show ?case
  proof (cases b)
    case True
    with s1(1) s2 show ?thesis by (auto simp: p Let_def)
  next
    case False
    let ?r = "s2\<lparr>grid := grid s, placed_words := placed_words s\<rparr>"
    have "wf_grid e ?r" using Cons.prems(1) by (simp add: wf_grid_def)
    moreover have "start_time ?r \<noteq> None" using s2(2) Cons.prems(2) by simp
    ultimately obtain b' s' where
      "try_placements f word ps ?r = Some (b', s')" "start_time s' = start_time ?r"
      using Cons.IH[of ?r] Cons.prems(3) by auto
    with s1(1) s2 False show ?thesis by (auto simp: p Let_def)
  qed
qed

lemma backtrack_solve_total:
  "\<forall>m. stdout_accepts w m \<Longrightarrow> wf_grid e s \<Longrightarrow> start_time s \<noteq> None
     \<Longrightarrow> 0 \<le> word_index
     \<Longrightarrow> \<exists>b s'. backtrack_solve e w word_index s = Some (b, s') \<and>
                start_time s' = start_time s"
proof (induction "nat (int (length (words e)) - word_index)" arbitrary: word_index s
         rule: less_induct)
  case less
  note accepts = less.prems(1) and wfs = less.prems(2) and nonneg = less.prems(4)
  let ?s = "s\<lparr>clock_reads := clock_reads s + 1\<rparr>"
  from less.prems(3) obtain started where started: "start_time s = Some started" by auto
  show ?case
  proof (cases "clock w (clock_reads s) - started > timeout e
                 \<or> word_index \<ge> int (length (words e))")
    case True
    then show ?thesis
      using accepts
      by (subst backtrack_solve.simps) (auto simp: Let_def started py_print_def)
  next
    case False
    then have running: "\<not> clock w (clock_reads s) - started > timeout e"
      and lt: "word_index < int (length (words e))"
      by auto
    from lt nonneg have word: "py_index (words e) word_index
                                 = Some (words e ! nat word_index)"
      by (simp add: py_index_def Let_def)
    let ?word = "words e ! nat word_index"
    have wf: "wf_grid e ?s" using wfs by (simp add: wf_grid_def)
    have "\<forall>(row, col, direction) \<in> set (all_positions e). on_board e row col"
      by (auto dest: all_positions_on_board)
    from collect_placements_total[OF wf this, of ?word] obtain valid where
      valid: "collect_placements e ?s ?word (all_positions e) = Some valid"
        "\<forall>p \<in> set valid. fitting e ?word p"
      by blast
    let ?t = "?s\<lparr>rand_draws := rand_draws ?s + length valid\<rparr>"
    have wft: "wf_grid e ?t" using wfs by (simp add: wf_grid_def)
    have st: "start_time ?t \<noteq> None" using started by simp
    have fit: "\<forall>p \<in> set (sort_placements w (rand_draws ?s) valid). fitting e ?word p"
      using valid(2) by (simp add: set_sort_placements)
    have smaller: "nat (int (length (words e)) - (word_index + 1))
                     < nat (int (length (words e)) - word_index)"
      using lt by simp
    have next_total: "\<And>t. wf_grid e t \<Longrightarrow> start_time t \<noteq> None
        \<Longrightarrow> \<exists>b t'. backtrack_solve e w (word_index + 1) t = Some (b, t') \<and>
                   start_time t' = start_time t"
      using less.hyps[OF smaller accepts] nonneg by simp
    from try_placements_total[of e "backtrack_solve e w (word_index + 1)",
           OF next_total wft st fit]
    obtain b s' where
      loop: "try_placements (backtrack_solve e w (word_index + 1)) ?word
         (sort_placements w (rand_draws ?s) valid) ?t = Some (b, s')"
      "start_time s' = start_time ?t"
      by blast
    have "backtrack_solve e w word_index s = Some (b, s')"
      using running lt word valid(1) loop(1) accepts
      by (subst backtrack_solve.simps) (cases b; simp add: Let_def started py_print_def)
    with loop(2) show ?thesis by simp
  qed
qed

lemma generate_puzzle_total:
  assumes "\<forall>m. stdout_accepts w m" "wf_grid e s"
  shows "\<exists>b s'. generate_puzzle e w s = Some (b, s')"
proof -
  let ?s = "s\<lparr>start_time := Some (clock w (clock_reads s)), clock_reads := clock_reads s + 1\<rparr>"
  have "wf_grid e ?s" using assms(2) by (simp add: wf_grid_def)
  from backtrack_solve_total[OF assms(1) this, of 0] obtain b t where
    "backtrack_solve e w 0 ?s = Some (b, t)" "start_time t = start_time ?s"
    by auto
  then show ?thesis
    using assms(1) by (auto simp: generate_puzzle_def Let_def py_print_def)
qed

lemma wf_grid_fresh: "0 \<le> n \<Longrightarrow> wf_grid (fst (new_engine pick word_list n)) (fresh_state n)"
  by (simp add: wf_grid_def new_engine_def fresh_state_def empty_grid_def py_range_def)

subsection \<open>The ordering of find_best_placement\<close>

lemma sort_key_hd_least:
  assumes "xs \<noteq> []"
  shows "hd (sort_key f xs) \<in> set xs \<and> (\<forall>x \<in> set xs. f (hd (sort_key f xs)) \<le> f x)"
proof -
  from assms have "length (sort_key f xs) \<noteq> 0" by simp
  then obtain y ys where ys: "sort_key f xs = y # ys" by (cases "sort_key f xs") auto
  have "sorted (map f (sort_key f xs))" by (rule sorted_sort_key)
  then have least: "\<forall>z \<in> set ys. f y \<le> f z" by (simp add: ys)
  have seteq: "set xs = insert y (set ys)" using set_sort[of f xs] by (simp add: ys)
  have "\<forall>x \<in> set xs. f y \<le> f x"
  proof
    fix x assume "x \<in> set xs"
    with seteq have "x = y \<or> x \<in> set ys" by auto
    with least show "f y \<le> f x" by auto
  qed
  moreover have "y \<in> set xs" using seteq by simp
  ultimately show ?thesis by (simp add: ys)
qed

lemma sort_connected_hd:
  assumes "ps \<noteq> []"
  shows "\<exists>row col d i nd rest.
           sort_connected w k ps = (row, col, d, i, nd) # rest \<and>
           (row, col, d, i, nd) \<in> set ps \<and>
           (\<forall>(row', col', d', i', nd') \<in> set ps. (- i, nd) \<le> (- i', nd'))"
proof -
  let ?keyed = "\<lambda>(j, x). ((- (fst (snd (snd (snd x)))), snd (snd (snd (snd x))), rand w (k + j)), x)"
  let ?L = "map ?keyed (List.enumerate 0 ps)"
  let ?S = "sort_key fst ?L"
  from assms have L: "?L \<noteq> []" by (cases ps) simp_all
  from sort_key_hd_least[OF L, of fst] have
    mem: "hd ?S \<in> set ?L" and least: "\<forall>x \<in> set ?L. fst (hd ?S) \<le> fst x"
    by blast+
  from L have "length ?S \<noteq> 0" by (simp del: length_map)
  then obtain rest where S: "?S = hd ?S # rest" by (cases ?S) auto
  from mem obtain j x where jx: "(j, x) \<in> set (List.enumerate 0 ps)" and
    hd: "hd ?S = ?keyed (j, x)" by auto
  obtain row col d i nd where x: "x = (row, col, d, i, nd)" by (cases x) auto
  from jx have xin: "x \<in> set ps" by (auto simp: in_set_enumerate_eq)
  have "map snd ?S = snd (hd ?S) # map snd rest" by (subst S) simp
  then have sorted_eq: "sort_connected w k ps = x # map snd rest"
    unfolding sort_connected_def by (simp only: hd prod.case snd_conv)
  have min: "\<forall>(row', col', d', i', nd') \<in> set ps. (- i, nd) \<le> (- i', nd')"
  proof (clarify)
    fix row' col' d' i' nd'
    assume y: "(row', col', d', i', nd') \<in> set ps"
    then obtain j' where "j' < length ps" "ps ! j' = (row', col', d', i', nd')"
      by (auto simp: in_set_conv_nth)
    then have "(j', (row', col', d', i', nd')) \<in> set (List.enumerate 0 ps)"
      by (simp add: in_set_enumerate_eq)
    then have "?keyed (j', (row', col', d', i', nd')) \<in> ?keyed ` set (List.enumerate 0 ps)"
      by (rule imageI)
    then have "?keyed (j', (row', col', d', i', nd')) \<in> set ?L" by (simp only: set_map)
    with least have "fst (hd ?S) \<le> fst (?keyed (j', (row', col', d', i', nd')))" by blast
    then have "(- i, nd, rand w (k + j)) \<le> (- i', nd', rand w (k + j'))"
      by (simp add: hd x)
    then show "(- i, nd) \<le> (- i', nd')"
      by (auto simp: less_eq_prod_def less_prod_def)
  qed
  from sorted_eq xin min show ?thesis unfolding x by blast
qed

lemma find_best_placement_least:
  assumes "collect_connected e s (upper word) (all_positions e) = Some ps" "ps \<noteq> []"
  shows "\<exists>row col d i nd s'.
           find_best_placement e w s word = Some (Some (row, col, d), s') \<and>
           (row, col, d, i, nd) \<in> set ps \<and>
           (\<forall>(row', col', d', i', nd') \<in> set ps. (- i, nd) \<le> (- i', nd'))"
proof -
  from sort_connected_hd[OF assms(2), of w "rand_draws s"] obtain row col d i nd rest where
    "sort_connected w (rand_draws s) ps = (row, col, d, i, nd) # rest"
    "(row, col, d, i, nd) \<in> set ps"
    "\<forall>(row', col', d', i', nd') \<in> set ps. (- i, nd) \<le> (- i', nd')"
    by blast
  with assms show ?thesis
    by (intro exI[of _ row] exI[of _ col] exI[of _ d] exI[of _ i] exI[of _ nd])
       (simp add: find_best_placement_def Let_def)
qed

lemma example_candidates:
  "collect_connected example_engine (fresh_state 3) (upper ''E'') (all_positions example_engine)
     = Some [(0, 0, ''across'', 0, -2), (0, 0, ''down'', 0, -2),
             (0, 1, ''across'', 0, -1), (0, 1, ''down'', 0, -1),
             (0, 2, ''across'', 0, -2), (0, 2, ''down'', 0, -2),
             (1, 0, ''across'', 0, -1), (1, 0, ''down'', 0, -1),
             (1, 1, ''across'', 0, 0), (1, 1, ''down'', 0, 0),
             (1, 2, ''across'', 0, -1), (1, 2, ''down'', 0, -1),
             (2, 0, ''across'', 0, -2), (2, 0, ''down'', 0, -2),
             (2, 1, ''across'', 0, -1), (2, 1, ''down'', 0, -1),
             (2, 2, ''across'', 0, -2), (2, 2, ''down'', 0, -2)]"
  by code_simp

text \<open>
  C9. The sort key of \<open>find_best_placement\<close> is \<open>(-intersections, -distance, random)\<close>,
  sorted ascending, so among candidates with equal intersection counts the one with the
  larger distance to the center comes first. On an empty 3 by 3 board every start cell
  takes the one-letter word \<open>E\<close> with no intersection; whatever the random draws, the
  method returns a corner, at distance 2, although the center cell is a candidate at
  distance 0.
\<close>

theorem find_best_placement_prefers_far:
  "\<exists>row col d s'.
     find_best_placement example_engine w (fresh_state 3) ''E'' = Some (Some (row, col, d), s') \<and>
     distance_to_center example_engine ''E'' row col d = 2 \<and>
     can_place_word_scrabble example_engine (fresh_state 3) ''E'' 1 1 ''across'' = Some True \<and>
     has_connection_to_existing example_engine (fresh_state 3) ''E'' 1 1 ''across'' = Some True \<and>
     distance_to_center example_engine ''E'' 1 1 ''across'' = 0"
proof -
  let ?ps = "[(0, 0, ''across'', 0, -2), (0, 0, ''down'', 0, -2),
             (0, 1, ''across'', 0, -1), (0, 1, ''down'', 0, -1),
             (0, 2, ''across'', 0, -2), (0, 2, ''down'', 0, -2),
             (1, 0, ''across'', 0, -1), (1, 0, ''down'', 0, -1),
             (1, 1, ''across'', 0, 0), (1, 1, ''down'', 0, 0),
             (1, 2, ''across'', 0, -1), (1, 2, ''down'', 0, -1),
             (2, 0, ''across'', 0, -2), (2, 0, ''down'', 0, -2),
             (2, 1, ''across'', 0, -1), (2, 1, ''down'', 0, -1),
             (2, 2, ''across'', 0, -2), (2, 2, ''down'', 0, -2)] :: (int \<times> int \<times> string \<times> int \<times> int) list"
  have ne: "?ps \<noteq> []" by simp
  from find_best_placement_least[OF example_candidates ne, of w] obtain row col d i nd s' where
    run: "find_best_placement example_engine w (fresh_state 3) ''E'' = Some (Some (row, col, d), s')"
    and mem: "(row, col, d, i, nd) \<in> set ?ps"
    and least: "\<forall>(row', col', d', i', nd') \<in> set ?ps. (- i, nd) \<le> (- i', nd')"
    by blast
  have "(0, 0, ''across'', 0, -2) \<in> set ?ps" by simp
  from bspec[OF least this] have corner: "(- i, nd) \<le> (- 0, - 2)" by simp
  from mem have i: "i = 0" by auto
  with corner have "nd \<le> - 2" by (simp add: less_eq_prod_def)
  with mem have far: "(row, col) \<in> {(0, 0), (0, 2), (2, 0), (2, 2)}" by auto
  have n: "grid_size example_engine = 3" by (simp add: example_engine_def)
  from far have "distance_to_center example_engine ''E'' row col d = 2"
    by (auto simp: distance_to_center_def n)
  moreover have "can_place_word_scrabble example_engine (fresh_state 3) ''E'' 1 1 ''across'' = Some True"
    by code_simp
  moreover have "has_connection_to_existing example_engine (fresh_state 3) ''E'' 1 1 ''across'' = Some True"
    by code_simp
  moreover have "distance_to_center example_engine ''E'' 1 1 ''across'' = 0"
    by (simp add: distance_to_center_def n)
  ultimately show ?thesis using run by blast
qed

end
